theory Spec2Isabelle
  imports Complex_Main
begin

section \<open>Graph path finder: the search algorithms of \<^verbatim>\<open>algorithms.py\<close>\<close>

text \<open>
  The module holds three searches (\<^verbatim>\<open>bfs\<close>, \<^verbatim>\<open>dfs\<close>, \<^verbatim>\<open>astar\<close>) over an adjacency
  dictionary and one shared helper, \<^verbatim>\<open>reconstruct_path\<close>.

  Conventions of the embedding.
  \<^item> A node is a value of a type variable \<open>'n\<close>; A* keeps nodes inside heap tuples, which
    Python compares, so there \<open>'n\<close> is a linear order.
  \<^item> A dictionary is a map; \<^verbatim>\<open>d[k]\<close> on a missing key raises \<^verbatim>\<open>KeyError\<close>, which is the
    value \<open>Inl KeyError\<close>.
  \<^item> Every \<^verbatim>\<open>while\<close> loop is a \<^theory_text>\<open>partial_function (option)\<close>: the value \<open>None\<close> is a
    loop that never ends, \<open>Some (Inl e)\<close> is a raised exception and \<open>Some (Inr v)\<close> a
    returned value.
  \<^item> Python's binary64 floats are idealised as the reals: the g-scores are the exact
    values \<open>0.0, 1.0, 2.0, \<dots>\<close>, and only the heuristic \<open>sqrt\<close> is rounded in the source.
\<close>

subsection \<open>Data model\<close>

datatype error = KeyError

record 'n SearchResult =
  path :: "'n list"
  distance :: int
  visited_count :: int
  visited_order :: "'n list option"

text \<open>\<^verbatim>\<open>adjacency.get(current, [])\<close>\<close>

definition neighbors :: "('n \<rightharpoonup> 'n list) \<Rightarrow> 'n \<Rightarrow> 'n list" where
  "neighbors adjacency current = (case adjacency current of None \<Rightarrow> [] | Some ns \<Rightarrow> ns)"

subsection \<open>\<^verbatim>\<open>reconstruct_path\<close>\<close>

text \<open>
  The \<^verbatim>\<open>while current is not None\<close> loop: \<open>walked\<close> is the list \<^verbatim>\<open>path\<close> built so far,
  \<open>current\<close> the optional node. \<^verbatim>\<open>came_from[current]\<close> raises on a missing key.
\<close>

partial_function (option) reconstruct_walk ::
  "('n \<rightharpoonup> 'n option) \<Rightarrow> 'n option \<Rightarrow> 'n list \<Rightarrow> (error + 'n list) option" where
  "reconstruct_walk came_from current walked =
     (case current of
        None \<Rightarrow> Some (Inr walked)
      | Some c \<Rightarrow>
          (case came_from c of
             None \<Rightarrow> Some (Inl KeyError)
           | Some nxt \<Rightarrow> reconstruct_walk came_from nxt (walked @ [c])))"

definition reconstruct_path ::
  "('n \<rightharpoonup> 'n option) \<Rightarrow> 'n \<Rightarrow> 'n \<Rightarrow> (error + 'n list) option" where
  "reconstruct_path came_from start goal =
     (case reconstruct_walk came_from (Some goal) [] of
        None \<Rightarrow> None
      | Some (Inl e) \<Rightarrow> Some (Inl e)
      | Some (Inr walked) \<Rightarrow>
          (let p = rev walked in
           if p = [] \<or> hd p \<noteq> start then Some (Inr []) else Some (Inr p)))"

text \<open>The tail shared by the three searches: \<^verbatim>\<open>distance = max(0, len(path) - 1)\<close>.\<close>

definition make_result :: "'n list \<Rightarrow> int \<Rightarrow> 'n list \<Rightarrow> 'n SearchResult" where
  "make_result p vcount vorder =
     \<lparr>path = p, distance = max 0 (int (length p) - 1),
      visited_count = vcount, visited_order = Some vorder\<rparr>"

subsection \<open>\<^verbatim>\<open>bfs\<close>\<close>

text \<open>The body of \<^verbatim>\<open>for neighbor in adjacency.get(current, [])\<close>, one neighbor.\<close>

definition bfs_visit ::
  "'n \<Rightarrow> 'n \<Rightarrow> ('n \<rightharpoonup> 'n option) \<times> 'n list \<Rightarrow> ('n \<rightharpoonup> 'n option) \<times> 'n list" where
  "bfs_visit current neighbor = (\<lambda>(came_from, frontier).
     if came_from neighbor = None
     then (came_from(neighbor \<mapsto> Some current), frontier @ [neighbor])
     else (came_from, frontier))"

text \<open>
  The \<^verbatim>\<open>while frontier\<close> loop; \<^verbatim>\<open>popleft\<close> takes the head of the list. The loop ends
  on an empty frontier or by \<^verbatim>\<open>break\<close>, and hands back the variables the code reads
  afterwards.
\<close>

partial_function (option) bfs_loop ::
  "('n \<rightharpoonup> 'n list) \<Rightarrow> 'n \<Rightarrow> 'n list \<Rightarrow> ('n \<rightharpoonup> 'n option) \<Rightarrow> int \<Rightarrow> 'n list
     \<Rightarrow> ('n list \<times> ('n \<rightharpoonup> 'n option) \<times> int \<times> 'n list) option" where
  "bfs_loop adjacency goal frontier came_from vcount vorder =
     (case frontier of
        [] \<Rightarrow> Some (frontier, came_from, vcount, vorder)
      | current # rest \<Rightarrow>
          if current = goal then Some (rest, came_from, vcount + 1, vorder @ [current])
          else
            (case fold (bfs_visit current) (neighbors adjacency current) (came_from, rest) of
               (came_from', frontier') \<Rightarrow>
                 bfs_loop adjacency goal frontier' came_from' (vcount + 1) (vorder @ [current])))"

definition finish ::
  "('n \<rightharpoonup> 'n option) \<Rightarrow> 'n \<Rightarrow> 'n \<Rightarrow> int \<Rightarrow> 'n list \<Rightarrow> (error + 'n SearchResult) option" where
  "finish came_from start goal vcount vorder =
     (case reconstruct_path came_from start goal of
        None \<Rightarrow> None
      | Some (Inl e) \<Rightarrow> Some (Inl e)
      | Some (Inr p) \<Rightarrow> Some (Inr (make_result p vcount vorder)))"

definition bfs :: "('n \<rightharpoonup> 'n list) \<Rightarrow> 'n \<Rightarrow> 'n \<Rightarrow> (error + 'n SearchResult) option" where
  "bfs adjacency start goal =
     (case bfs_loop adjacency goal [start] [start \<mapsto> None] 0 [] of
        None \<Rightarrow> None
      | Some (frontier, came_from, vcount, vorder) \<Rightarrow>
          finish came_from start goal vcount vorder)"

subsection \<open>\<^verbatim>\<open>dfs\<close>\<close>

text \<open>
  The stack is a Python list: \<^verbatim>\<open>pop()\<close> takes the last element, \<^verbatim>\<open>append\<close> adds at the
  end. The loop body is that of \<^verbatim>\<open>bfs\<close>.
\<close>

partial_function (option) dfs_loop ::
  "('n \<rightharpoonup> 'n list) \<Rightarrow> 'n \<Rightarrow> 'n list \<Rightarrow> ('n \<rightharpoonup> 'n option) \<Rightarrow> int \<Rightarrow> 'n list
     \<Rightarrow> ('n list \<times> ('n \<rightharpoonup> 'n option) \<times> int \<times> 'n list) option" where
  "dfs_loop adjacency goal stack came_from vcount vorder =
     (if stack = [] then Some (stack, came_from, vcount, vorder)
      else
        (let current = last stack; rest = butlast stack in
         if current = goal then Some (rest, came_from, vcount + 1, vorder @ [current])
         else
           (case fold (bfs_visit current) (neighbors adjacency current) (came_from, rest) of
              (came_from', stack') \<Rightarrow>
                dfs_loop adjacency goal stack' came_from' (vcount + 1) (vorder @ [current]))))"

definition dfs :: "('n \<rightharpoonup> 'n list) \<Rightarrow> 'n \<Rightarrow> 'n \<Rightarrow> (error + 'n SearchResult) option" where
  "dfs adjacency start goal =
     (case dfs_loop adjacency goal [start] [start \<mapsto> None] 0 [] of
        None \<Rightarrow> None
      | Some (stack, came_from, vcount, vorder) \<Rightarrow>
          finish came_from start goal vcount vorder)"

subsection \<open>\<^verbatim>\<open>astar\<close>\<close>

definition euclidean :: "real \<times> real \<Rightarrow> real \<times> real \<Rightarrow> real" where
  "euclidean a b = sqrt ((fst a - fst b)\<^sup>2 + (snd a - snd b)\<^sup>2)"

text \<open>
  The expression bound to \<^verbatim>\<open>h\<close>: the Euclidean distance when both \<^verbatim>\<open>neighbor\<close> and
  \<^verbatim>\<open>goal\<close> are keys of \<^verbatim>\<open>positions\<close>, else \<^verbatim>\<open>0.0\<close>.
\<close>

definition heuristic :: "('n \<rightharpoonup> real \<times> real) \<Rightarrow> 'n \<Rightarrow> 'n \<Rightarrow> real" where
  "heuristic positions goal neighbor =
     (case positions neighbor of
        None \<Rightarrow> 0
      | Some pn \<Rightarrow> (case positions goal of None \<Rightarrow> 0 | Some pg \<Rightarrow> euclidean pn pg))"

text \<open>
  The heap holds tuples \<^verbatim>\<open>(f, node)\<close>. Python orders tuples by their first differing
  component. \<^verbatim>\<open>heappop\<close> returns the least entry and removes it; the layout of
  \<^verbatim>\<open>heapq\<close>'s array is not observable, so the heap is the list of its entries.
\<close>

fun tuple_less :: "real \<times> 'n::linorder \<Rightarrow> real \<times> 'n \<Rightarrow> bool" where
  "tuple_less (f1, n1) (f2, n2) = (if f1 \<noteq> f2 then f1 < f2 else n1 < n2)"

definition heap_least :: "(real \<times> 'n::linorder) list \<Rightarrow> real \<times> 'n" where
  "heap_least h = fold (\<lambda>x m. if tuple_less x m then x else m) (tl h) (hd h)"

definition heappush :: "(real \<times> 'n) list \<Rightarrow> real \<times> 'n \<Rightarrow> (real \<times> 'n) list" where
  "heappush h x = h @ [x]"

definition heappop :: "(real \<times> 'n::linorder) list \<Rightarrow> (real \<times> 'n) \<times> (real \<times> 'n) list" where
  "heappop h = (heap_least h, remove1 (heap_least h) h)"

text \<open>
  The body of the \<^verbatim>\<open>for neighbor\<close> loop of \<^verbatim>\<open>astar\<close>, one neighbor, on the triple
  (\<^verbatim>\<open>open_heap\<close>, \<^verbatim>\<open>came_from\<close>, \<^verbatim>\<open>g_score\<close>). \<^verbatim>\<open>g_score[current]\<close> is read at every
  neighbor and raises on a missing key; an exception ends the loop.
\<close>

definition astar_relax ::
  "('n \<rightharpoonup> real \<times> real) \<Rightarrow> 'n \<Rightarrow> 'n \<Rightarrow> 'n
     \<Rightarrow> error + ((real \<times> 'n) list \<times> ('n \<rightharpoonup> 'n option) \<times> ('n \<rightharpoonup> real))
     \<Rightarrow> error + ((real \<times> 'n) list \<times> ('n \<rightharpoonup> 'n option) \<times> ('n \<rightharpoonup> real))" where
  "astar_relax positions goal current neighbor st =
     (case st of
        Inl e \<Rightarrow> Inl e
      | Inr (open_heap, came_from, g_score) \<Rightarrow>
          (case g_score current of
             None \<Rightarrow> Inl KeyError
           | Some gc \<Rightarrow>
               (let tentative_g = gc + 1 in
                if (case g_score neighbor of None \<Rightarrow> True | Some gn \<Rightarrow> tentative_g < gn)
                then
                  (let h = heuristic positions goal neighbor;
                       f = tentative_g + h
                   in Inr (heappush open_heap (f, neighbor),
                           came_from(neighbor \<mapsto> Some current),
                           g_score(neighbor \<mapsto> tentative_g)))
                else Inr (open_heap, came_from, g_score))))"

partial_function (option) astar_loop ::
  "('n \<rightharpoonup> 'n list) \<Rightarrow> ('n \<rightharpoonup> real \<times> real) \<Rightarrow> 'n \<Rightarrow> 'n::linorder
     \<Rightarrow> (real \<times> 'n) list \<Rightarrow> ('n \<rightharpoonup> 'n option) \<Rightarrow> ('n \<rightharpoonup> real) \<Rightarrow> int \<Rightarrow> 'n list
     \<Rightarrow> (error + 'n SearchResult) option" where
  "astar_loop adjacency positions start goal open_heap came_from g_score vcount vorder =
     (if open_heap = [] then
        Some (Inr \<lparr>path = [], distance = 0, visited_count = vcount,
                   visited_order = Some vorder\<rparr>)
      else
        (case heappop open_heap of
           ((f, current), popped) \<Rightarrow>
             if current = goal
             then finish came_from start goal (vcount + 1) (vorder @ [current])
             else
               (case fold (astar_relax positions goal current) (neighbors adjacency current)
                       (Inr (popped, came_from, g_score)) of
                  Inl e \<Rightarrow> Some (Inl e)
                | Inr (open_heap', came_from', g_score') \<Rightarrow>
                    astar_loop adjacency positions start goal open_heap' came_from' g_score'
                      (vcount + 1) (vorder @ [current]))))"

definition astar ::
  "('n \<rightharpoonup> 'n list) \<Rightarrow> ('n \<rightharpoonup> real \<times> real) \<Rightarrow> 'n \<Rightarrow> 'n::linorder
     \<Rightarrow> (error + 'n SearchResult) option" where
  "astar adjacency positions start goal =
     astar_loop adjacency positions start goal (heappush [] (0, start))
       [start \<mapsto> None] [start \<mapsto> 0] 0 []"

subsection \<open>The dispatch of \<^verbatim>\<open>app.py\<close>\<close>

text \<open>
  \<^verbatim>\<open>run_cli\<close> looks the algorithm up by name and passes \<^verbatim>\<open>positions\<close> to \<^verbatim>\<open>astar\<close> only.
\<close>

datatype algorithm = BFS | DFS | ASTAR

definition search ::
  "algorithm \<Rightarrow> ('n \<rightharpoonup> 'n list) \<Rightarrow> ('n \<rightharpoonup> real \<times> real) \<Rightarrow> 'n \<Rightarrow> 'n::linorder
     \<Rightarrow> (error + 'n SearchResult) option" where
  "search kind adjacency positions start goal =
     (case kind of
        ASTAR \<Rightarrow> astar adjacency positions start goal
      | BFS \<Rightarrow> bfs adjacency start goal
      | DFS \<Rightarrow> dfs adjacency start goal)"

subsection \<open>Graph notions used to state the properties\<close>

text \<open>\<open>edge G u v\<close>: \<open>v\<close> is listed among the neighbors of \<open>u\<close>.\<close>

definition edge :: "('n \<rightharpoonup> 'n list) \<Rightarrow> 'n \<Rightarrow> 'n \<Rightarrow> bool" where
  "edge G u v = (v \<in> set (neighbors G u))"

text \<open>A route from \<open>s\<close> to \<open>g\<close>: a non-empty node list whose consecutive pairs are edges.\<close>

definition is_route :: "('n \<rightharpoonup> 'n list) \<Rightarrow> 'n \<Rightarrow> 'n \<Rightarrow> 'n list \<Rightarrow> bool" where
  "is_route G s g p = (p \<noteq> [] \<and> hd p = s \<and> last p = g \<and> successively (edge G) p)"

text \<open>
  \<open>chain cf n xs\<close>: following the came-from map from \<open>n\<close> visits exactly \<open>xs\<close> and ends
  at a node mapped to \<^verbatim>\<open>None\<close>.
\<close>

inductive chain :: "('n \<rightharpoonup> 'n option) \<Rightarrow> 'n \<Rightarrow> 'n list \<Rightarrow> bool" for cf where
  chain_root: "cf n = Some None \<Longrightarrow> chain cf n [n]"
| chain_step: "cf n = Some (Some p) \<Longrightarrow> chain cf p xs \<Longrightarrow> chain cf n (n # xs)"

subsection \<open>Concrete graphs\<close>

text \<open>The two disjoint triangles of the specification's scenario.\<close>

definition two_triangles :: "string \<rightharpoonup> string list" where
  "two_triangles =
     [''A'' \<mapsto> [''B'', ''C''], ''B'' \<mapsto> [''A'', ''C''], ''C'' \<mapsto> [''A'', ''B''],
      ''D'' \<mapsto> [''E'', ''F''], ''E'' \<mapsto> [''D'', ''F''], ''F'' \<mapsto> [''D'', ''E'']]"

text \<open>
  A directed graph in which node 3 is first reached by the long way round
  \<open>0 \<rightarrow> 1 \<rightarrow> 2 \<rightarrow> 3\<close>, because the only positioned node 4 sits far from the goal 6.
\<close>

definition detour_graph :: "nat \<rightharpoonup> nat list" where
  "detour_graph =
     [0 \<mapsto> [1, 4], 1 \<mapsto> [2], 2 \<mapsto> [3], 3 \<mapsto> [5], 4 \<mapsto> [3], 5 \<mapsto> [6], 6 \<mapsto> []]"

definition detour_positions :: "nat \<rightharpoonup> real \<times> real" where
  "detour_positions = [4 \<mapsto> (5 / 2, 0), 6 \<mapsto> (0, 0)]"

text \<open>Every recorded predecessor is joined to its node by an edge of the graph.\<close>

definition cf_edges :: "('n \<rightharpoonup> 'n list) \<Rightarrow> ('n \<rightharpoonup> 'n option) \<Rightarrow> bool" where
  "cf_edges G cf = (\<forall>n p. cf n = Some (Some p) \<longrightarrow> edge G p n)"

text \<open>The nodes that occur in some neighbor list.\<close>

definition targets :: "('n \<rightharpoonup> 'n list) \<Rightarrow> 'n set" where
  "targets G = \<Union> (set ` ran G)"

text \<open>
  The invariant of the \<^verbatim>\<open>astar\<close> loop: heap entries name scored nodes, \<^verbatim>\<open>came_from\<close> and
  \<^verbatim>\<open>g_score\<close> have the same keys, scores are whole numbers, and a predecessor's score
  is at least one below its node's.
\<close>

definition astar_inv ::
  "('n \<rightharpoonup> 'n list) \<Rightarrow> 'n \<Rightarrow> (real \<times> 'n) list \<Rightarrow> ('n \<rightharpoonup> 'n option) \<Rightarrow> ('n \<rightharpoonup> real) \<Rightarrow> bool" where
  "astar_inv G start hp cf gs =
     ((\<forall>x \<in> set hp. snd x \<in> dom gs) \<and> dom cf = dom gs \<and> cf_edges G cf \<and>
      cf start = Some None \<and> gs start = Some 0 \<and> (\<forall>n. cf n = Some None \<longrightarrow> n = start) \<and>
      (\<forall>n g. gs n = Some g \<longrightarrow> g \<in> \<nat>) \<and>
      (\<forall>n p. cf n = Some (Some p) \<longrightarrow>
         (\<exists>gp gn. gs p = Some gp \<and> gs n = Some gn \<and> gp + 1 \<le> gn)) \<and>
      dom gs \<subseteq> insert start (targets G))"

text \<open>The termination order of the \<^verbatim>\<open>astar\<close> loop: nodes not yet scored, then the sum of the scores.\<close>

definition undiscovered :: "('n \<rightharpoonup> 'n list) \<Rightarrow> 'n \<Rightarrow> ('n \<rightharpoonup> real) \<Rightarrow> nat" where
  "undiscovered G start gs = card (insert start (targets G) - dom gs)"

definition score_sum :: "('n \<rightharpoonup> 'n list) \<Rightarrow> 'n \<Rightarrow> ('n \<rightharpoonup> real) \<Rightarrow> nat" where
  "score_sum G start gs =
     (\<Sum>n \<in> insert start (targets G). case gs n of None \<Rightarrow> 0 | Some g \<Rightarrow> nat \<lfloor>g\<rfloor>)"

definition astar_less :: "('n \<rightharpoonup> 'n list) \<Rightarrow> 'n \<Rightarrow> ('n \<rightharpoonup> real) \<Rightarrow> ('n \<rightharpoonup> real) \<Rightarrow> bool" where
  "astar_less G start gs' gs =
     (undiscovered G start gs' < undiscovered G start gs \<or>
      undiscovered G start gs' = undiscovered G start gs \<and> score_sum G start gs' < score_sum G start gs)"

text \<open>Every key of the came-from map has a chain, and the chain ends at \<open>s\<close>.\<close>

definition rooted :: "('n \<rightharpoonup> 'n option) \<Rightarrow> 'n \<Rightarrow> bool" where
  "rooted cf s = (\<forall>n \<in> dom cf. \<exists>xs. chain cf n xs \<and> last xs = s)"

text \<open>
  A result whose path is a route from \<open>s\<close> to \<open>g\<close>, whose distance is the number of edges
  of the path and whose count is the length of the visitation order.
\<close>

definition sound_result :: "('n \<rightharpoonup> 'n list) \<Rightarrow> 'n \<Rightarrow> 'n \<Rightarrow> 'n SearchResult \<Rightarrow> bool" where
  "sound_result G s g r =
     (is_route G s g (path r) \<and> distance r = int (length (path r)) - 1 \<and>
      (\<exists>vo. visited_order r = Some vo \<and> visited_count r = int (length vo)))"

text \<open>The path graph 0 - 1 - 2 of the specification's first scenario.\<close>

definition line_graph :: "nat \<rightharpoonup> nat list" where
  "line_graph = [0 \<mapsto> [1], 1 \<mapsto> [0, 2], 2 \<mapsto> [1]]"

section \<open>Properties\<close>

subsection \<open>Evaluation\<close>

lemmas search_unfold =
  bfs_def bfs_loop.simps dfs_def dfs_loop.simps finish_def reconstruct_path_def
  reconstruct_walk.simps make_result_def bfs_visit_def neighbors_def Let_def

lemmas astar_unfold =
  astar_def astar_loop.simps astar_relax_def heappop_def heappush_def heap_least_def
  heuristic_def finish_def reconstruct_path_def reconstruct_walk.simps make_result_def
  neighbors_def Let_def

lemma reconstruct_path_self: "reconstruct_path [n \<mapsto> None] n n = Some (Inr [n])"
  by (simp add: reconstruct_path_def reconstruct_walk.simps)

lemma bfs_trivial:
  "bfs G n n =
     Some (Inr \<lparr>path = [n], distance = 0, visited_count = 1, visited_order = Some [n]\<rparr>)"
  by (simp add: bfs_def bfs_loop.simps finish_def reconstruct_path_self make_result_def)

lemma dfs_trivial:
  "dfs G n n =
     Some (Inr \<lparr>path = [n], distance = 0, visited_count = 1, visited_order = Some [n]\<rparr>)"
  by (simp add: dfs_def dfs_loop.simps finish_def reconstruct_path_self make_result_def)

lemma astar_trivial:
  "astar G pos n n =
     Some (Inr \<lparr>path = [n], distance = 0, visited_count = 1, visited_order = Some [n]\<rparr>)"
  by (simp add: astar_def astar_loop.simps heappush_def heappop_def heap_least_def finish_def
      reconstruct_path_self make_result_def)

text \<open>
  Claim C5 (trivial search). For every adjacency mapping and every node \<open>n\<close>, each of the
  three searches from \<open>n\<close> to \<open>n\<close> returns the path \<open>[n]\<close> with distance 0; exactly one
  node, \<open>n\<close> itself, is visited, so its neighbors are never expanded. The statement needs
  no assumption on \<open>n\<close>, so it covers every key of the mapping.
\<close>

theorem trivial_search:
  "search kind G pos n n =
     Some (Inr \<lparr>path = [n], distance = 0, visited_count = 1, visited_order = Some [n]\<rparr>)"
  by (cases kind) (simp_all add: search_def bfs_trivial dfs_trivial astar_trivial)

lemma sqrt_25_4: "sqrt (25 / 4) = 5 / 2"
  by (rule real_sqrt_unique) (simp_all add: power2_eq_square)

lemma astar_detour:
  "astar detour_graph detour_positions 0 6 =
     Some (Inr \<lparr>path = [0, 4, 3, 5, 6], distance = 4, visited_count = 9,
                visited_order = Some [0, 1, 2, 3, 4, 3, 5, 5, 6]\<rparr>)"
  by (simp add: astar_unfold detour_graph_def detour_positions_def euclidean_def sqrt_25_4
      power2_eq_square)

text \<open>
  Claim C10 (A* visitation may repeat nodes). There are an adjacency mapping, a positions
  mapping, a start and a goal, both keys of the mapping, for which the visitation order
  returned by \<^verbatim>\<open>astar\<close> is not duplicate-free, so that the visited count exceeds the
  number of distinct visited nodes. In \<open>detour_graph\<close> node 3 is popped with g-score 3,
  re-pushed when node 4 improves it to 2 and popped again; node 5 is popped a second
  time through its stale heap entry.
\<close>

theorem astar_revisits:
  "\<exists>(G :: nat \<rightharpoonup> nat list) pos s g r vo.
     finite (dom G) \<and> s \<in> dom G \<and> g \<in> dom G \<and>
     astar G pos s g = Some (Inr r) \<and> visited_order r = Some vo \<and>
     \<not> distinct vo \<and> int (card (set vo)) < visited_count r"
proof -
  have "finite (dom detour_graph) \<and> 0 \<in> dom detour_graph \<and> 6 \<in> dom detour_graph"
    by (simp add: detour_graph_def)
  moreover have "\<not> distinct [0, 1, 2, 3, 4, 3, 5, 5, 6 :: nat]"
    by simp
  moreover have "int (card (set [0, 1, 2, 3, 4, 3, 5, 5, 6 :: nat])) < 9"
    by (simp add: card_insert_if)
  ultimately show ?thesis
    using astar_detour by (intro exI[of _ detour_graph] exI[of _ detour_positions]
      exI[of _ "0::nat"] exI[of _ "6::nat"]) fastforce
qed

subsection \<open>Rules for the three loops\<close>

lemma bfs_loop_rule:
  assumes run: "bfs_loop G goal fr cf vc vo = Some r"
    and init: "I fr cf vc vo"
    and step: "\<And>current rest cf vc vo cf' fr'.
      I (current # rest) cf vc vo \<Longrightarrow> current \<noteq> goal \<Longrightarrow>
      fold (bfs_visit current) (neighbors G current) (cf, rest) = (cf', fr') \<Longrightarrow>
      I fr' cf' (vc + 1) (vo @ [current])"
  shows "(\<exists>cf vc vo. I [] cf vc vo \<and> r = ([], cf, vc, vo)) \<or>
         (\<exists>rest cf vc vo. I (goal # rest) cf vc vo \<and> r = (rest, cf, vc + 1, vo @ [goal]))"
proof -
  define Q where "Q = (\<lambda>r. (\<exists>cf vc vo. I [] cf vc vo \<and> r = ([], cf, vc, vo)) \<or>
         (\<exists>rest cf vc vo. I (goal # rest) cf vc vo \<and> r = (rest, cf, vc + 1, vo @ [goal])))"
  define P where "P = (\<lambda>G' goal' fr cf vc vo r. G' = G \<longrightarrow> goal' = goal \<longrightarrow> I fr cf vc vo \<longrightarrow> Q r)"
  have "P G goal fr cf vc vo r"
  proof (rule bfs_loop.raw_induct[OF _ run])
    fix loop G' goal' fr cf vc vo r
    assume IH: "\<And>G' goal' fr cf vc vo r. loop G' goal' fr cf vc vo = Some r \<Longrightarrow> P G' goal' fr cf vc vo r"
      and body: "(case fr of [] \<Rightarrow> Some (fr, cf, vc, vo)
        | current # rest \<Rightarrow>
          if current = goal' then Some (rest, cf, vc + 1, vo @ [current])
          else case fold (bfs_visit current) (neighbors G' current) (cf, rest) of
               (came_from', frontier') \<Rightarrow> loop G' goal' frontier' came_from' (vc + 1) (vo @ [current])) = Some r"
    show "P G' goal' fr cf vc vo r"
      unfolding P_def
    proof (intro impI)
      assume eq: "G' = G" "goal' = goal" and inv: "I fr cf vc vo"
      show "Q r"
      proof (cases fr)
        case Nil
        with body inv show ?thesis by (auto simp: Q_def)
      next
        case (Cons current rest)
        show ?thesis
        proof (cases "current = goal")
          case True
          with body inv Cons eq show ?thesis by (auto simp: Q_def)
        next
          case False
          obtain cf' fr' where f: "fold (bfs_visit current) (neighbors G current) (cf, rest) = (cf', fr')"
            by (cases "fold (bfs_visit current) (neighbors G current) (cf, rest)") auto
          with body Cons False eq have "loop G goal fr' cf' (vc + 1) (vo @ [current]) = Some r"
            by simp
          moreover have "I fr' cf' (vc + 1) (vo @ [current])"
            using step inv Cons False f by blast
          ultimately show ?thesis using IH unfolding P_def by blast
        qed
      qed
    qed
  qed
  with init show ?thesis unfolding P_def Q_def by blast
qed

lemma dfs_loop_rule:
  assumes run: "dfs_loop G goal st cf vc vo = Some r"
    and init: "I st cf vc vo"
    and step: "\<And>st cf vc vo cf' st'.
      I st cf vc vo \<Longrightarrow> st \<noteq> [] \<Longrightarrow> last st \<noteq> goal \<Longrightarrow>
      fold (bfs_visit (last st)) (neighbors G (last st)) (cf, butlast st) = (cf', st') \<Longrightarrow>
      I st' cf' (vc + 1) (vo @ [last st])"
  shows "(\<exists>cf vc vo. I [] cf vc vo \<and> r = ([], cf, vc, vo)) \<or>
         (\<exists>st cf vc vo. I st cf vc vo \<and> st \<noteq> [] \<and> last st = goal \<and>
             r = (butlast st, cf, vc + 1, vo @ [goal]))"
proof -
  define Q where "Q = (\<lambda>r. (\<exists>cf vc vo. I [] cf vc vo \<and> r = ([], cf, vc, vo)) \<or>
         (\<exists>st cf vc vo. I st cf vc vo \<and> st \<noteq> [] \<and> last st = goal \<and>
             r = (butlast st, cf, vc + 1, vo @ [goal])))"
  define P where "P = (\<lambda>G' goal' st cf vc vo r. G' = G \<longrightarrow> goal' = goal \<longrightarrow> I st cf vc vo \<longrightarrow> Q r)"
  have "P G goal st cf vc vo r"
  proof (rule dfs_loop.raw_induct[OF _ run])
    fix loop G' goal' st cf vc vo r
    assume IH: "\<And>G' goal' st cf vc vo r. loop G' goal' st cf vc vo = Some r \<Longrightarrow> P G' goal' st cf vc vo r"
      and body: "(if st = [] then Some (st, cf, vc, vo)
        else let current = last st; rest = butlast st in
          if current = goal' then Some (rest, cf, vc + 1, vo @ [current])
          else case fold (bfs_visit current) (neighbors G' current) (cf, rest) of
               (came_from', stack') \<Rightarrow> loop G' goal' stack' came_from' (vc + 1) (vo @ [current])) = Some r"
    show "P G' goal' st cf vc vo r"
      unfolding P_def
    proof (intro impI)
      assume eq: "G' = G" "goal' = goal" and inv: "I st cf vc vo"
      show "Q r"
      proof (cases "st = []")
        case True
        with body inv show ?thesis by (auto simp: Q_def)
      next
        case ne: False
        show ?thesis
        proof (cases "last st = goal")
          case True
          with body inv ne eq show ?thesis by (auto simp: Q_def Let_def)
        next
          case False
          obtain cf' st' where f: "fold (bfs_visit (last st)) (neighbors G (last st)) (cf, butlast st) = (cf', st')"
            by (cases "fold (bfs_visit (last st)) (neighbors G (last st)) (cf, butlast st)") auto
          with body ne False eq have "loop G goal st' cf' (vc + 1) (vo @ [last st]) = Some r"
            by (simp add: Let_def)
          moreover have "I st' cf' (vc + 1) (vo @ [last st])"
            using step inv ne False f by blast
          ultimately show ?thesis using IH unfolding P_def by blast
        qed
      qed
    qed
  qed
  with init show ?thesis unfolding P_def Q_def by blast
qed

lemma astar_loop_rule:
  assumes run: "astar_loop G pos start goal hp cf gs vc vo = Some out"
    and init: "I hp cf gs vc vo"
    and step: "\<And>hp cf gs vc vo f current popped hp' cf' gs'.
      I hp cf gs vc vo \<Longrightarrow> hp \<noteq> [] \<Longrightarrow> heappop hp = ((f, current), popped) \<Longrightarrow>
      current \<noteq> goal \<Longrightarrow>
      fold (astar_relax pos goal current) (neighbors G current) (Inr (popped, cf, gs))
        = Inr (hp', cf', gs') \<Longrightarrow>
      I hp' cf' gs' (vc + 1) (vo @ [current])"
  shows "(\<exists>cf gs vc vo. I [] cf gs vc vo \<and>
            out = Inr \<lparr>path = [], distance = 0, visited_count = vc, visited_order = Some vo\<rparr>) \<or>
         (\<exists>hp cf gs vc vo f popped. I hp cf gs vc vo \<and> hp \<noteq> [] \<and>
            heappop hp = ((f, goal), popped) \<and>
            finish cf start goal (vc + 1) (vo @ [goal]) = Some out) \<or>
         (\<exists>hp cf gs vc vo f current popped e. I hp cf gs vc vo \<and> hp \<noteq> [] \<and>
            heappop hp = ((f, current), popped) \<and> current \<noteq> goal \<and>
            fold (astar_relax pos goal current) (neighbors G current) (Inr (popped, cf, gs)) = Inl e \<and>
            out = Inl e)"
proof -
  define Q where "Q = (\<lambda>out. (\<exists>cf gs vc vo. I [] cf gs vc vo \<and>
            out = Inr \<lparr>path = [], distance = 0, visited_count = vc, visited_order = Some vo\<rparr>) \<or>
         (\<exists>hp cf gs vc vo f popped. I hp cf gs vc vo \<and> hp \<noteq> [] \<and>
            heappop hp = ((f, goal), popped) \<and>
            finish cf start goal (vc + 1) (vo @ [goal]) = Some out) \<or>
         (\<exists>hp cf gs vc vo f current popped e. I hp cf gs vc vo \<and> hp \<noteq> [] \<and>
            heappop hp = ((f, current), popped) \<and> current \<noteq> goal \<and>
            fold (astar_relax pos goal current) (neighbors G current) (Inr (popped, cf, gs)) = Inl e \<and>
            out = Inl e))"
  define P where "P = (\<lambda>G' pos' start' goal' hp cf gs vc vo out.
     G' = G \<longrightarrow> pos' = pos \<longrightarrow> start' = start \<longrightarrow> goal' = goal \<longrightarrow> I hp cf gs vc vo \<longrightarrow> Q out)"
  have "P G pos start goal hp cf gs vc vo out"
  proof (rule astar_loop.raw_induct[OF _ run])
    fix loop G' pos' start' goal' hp cf gs vc vo out
    assume IH: "\<And>G' pos' start' goal' hp cf gs vc vo out.
        loop G' pos' start' goal' hp cf gs vc vo = Some out \<Longrightarrow> P G' pos' start' goal' hp cf gs vc vo out"
      and body: "(if hp = [] then
        Some (Inr \<lparr>path = [], distance = 0, visited_count = vc, visited_order = Some vo\<rparr>)
      else
        (case heappop hp of
           ((f, current), popped) \<Rightarrow>
             if current = goal'
             then finish cf start' goal' (vc + 1) (vo @ [current])
             else
               (case fold (astar_relax pos' goal' current) (neighbors G' current)
                       (Inr (popped, cf, gs)) of
                  Inl e \<Rightarrow> Some (Inl e)
                | Inr (open_heap', came_from', g_score') \<Rightarrow>
                    loop G' pos' start' goal' open_heap' came_from' g_score'
                      (vc + 1) (vo @ [current])))) = Some out"
    show "P G' pos' start' goal' hp cf gs vc vo out"
      unfolding P_def
    proof (intro impI)
      assume eq: "G' = G" "pos' = pos" "start' = start" "goal' = goal" and inv: "I hp cf gs vc vo"
      show "Q out"
      proof (cases "hp = []")
        case True
        with body inv show ?thesis by (auto simp: Q_def)
      next
        case ne: False
        obtain f current popped where pop: "heappop hp = ((f, current), popped)"
          by (cases "heappop hp") auto
        show ?thesis
        proof (cases "current = goal")
          case True
          with body ne eq pop have "finish cf start goal (vc + 1) (vo @ [goal]) = Some out"
            by simp
          with inv ne pop True show ?thesis unfolding Q_def by blast
        next
          case False
          show ?thesis
          proof (cases "fold (astar_relax pos goal current) (neighbors G current) (Inr (popped, cf, gs))")
            case (Inl e)
            with body ne eq pop False have "out = Inl e" by simp
            with inv ne pop False Inl show ?thesis unfolding Q_def by blast
          next
            case (Inr t)
            obtain hp' cf' gs' where t: "t = (hp', cf', gs')" by (cases t) auto
            with body ne False eq pop Inr
            have "loop G pos start goal hp' cf' gs' (vc + 1) (vo @ [current]) = Some out"
              by simp
            moreover have "I hp' cf' gs' (vc + 1) (vo @ [current])"
              using step[OF inv ne pop False] Inr t by simp
            ultimately show ?thesis using IH unfolding P_def by blast
          qed
        qed
      qed
    qed
  qed
  with init show ?thesis unfolding P_def Q_def by blast
qed

subsection \<open>Chains of the came-from map and \<^verbatim>\<open>reconstruct_path\<close>\<close>

lemma chain_nonempty: "chain cf n xs \<Longrightarrow> xs \<noteq> [] \<and> hd xs = n"
  by (induction rule: chain.induct) auto

lemma chain_dom: "chain cf n xs \<Longrightarrow> set xs \<subseteq> dom cf"
  by (induction rule: chain.induct) auto

lemma chain_last: "chain cf n xs \<Longrightarrow> cf (last xs) = Some None"
  by (induction rule: chain.induct) (auto dest: chain_nonempty)

lemma chain_links: "chain cf n xs \<Longrightarrow> successively (\<lambda>a b. cf a = Some (Some b)) xs"
proof (induction rule: chain.induct)
  case (chain_root n)
  then show ?case by simp
next
  case (chain_step n p xs)
  then show ?case by (cases xs) (auto dest: chain_nonempty)
qed

lemma chain_fresh: "chain cf n xs \<Longrightarrow> cf v = None \<Longrightarrow> chain (cf(v \<mapsto> x)) n xs"
proof (induction rule: chain.induct)
  case (chain_root n)
  then have "n \<noteq> v" by auto
  with chain_root show ?case by (simp add: chain.chain_root)
next
  case (chain_step n p xs)
  then have "n \<noteq> v" by auto
  with chain_step show ?case by (simp add: chain.chain_step)
qed

lemma walk_of_chain:
  "chain cf n xs \<Longrightarrow> reconstruct_walk cf (Some n) acc = Some (Inr (acc @ xs))"
proof (induction arbitrary: acc rule: chain.induct)
  case (chain_root n)
  then show ?case
    by (subst reconstruct_walk.simps) (simp add: reconstruct_walk.simps)
next
  case (chain_step n p xs)
  then show ?case
    by (subst reconstruct_walk.simps) simp
qed

lemma chain_of_walk:
  assumes "reconstruct_walk cf cur acc = Some (Inr w)"
  shows "case cur of None \<Rightarrow> w = acc | Some n \<Rightarrow> (\<exists>xs. chain cf n xs \<and> w = acc @ xs)"
proof -
  define P where "P = (\<lambda>cf' (cur :: 'a option) acc (out :: error + 'a list). cf' = cf \<longrightarrow>
    (\<forall>w. out = Inr w \<longrightarrow>
      (case cur of None \<Rightarrow> w = acc | Some n \<Rightarrow> (\<exists>xs. chain cf n xs \<and> w = acc @ xs))))"
  have "P cf cur acc (Inr w)"
  proof (rule reconstruct_walk.raw_induct[OF _ assms])
    fix walk :: "('a \<rightharpoonup> 'a option) \<Rightarrow> 'a option \<Rightarrow> 'a list \<Rightarrow> (error + 'a list) option"
      and cf' and cur :: "'a option" and acc and out :: "error + 'a list"
    assume IH: "\<And>cf' cur acc out. walk cf' cur acc = Some out \<Longrightarrow> P cf' cur acc out"
      and body: "(case cur of None \<Rightarrow> Some (Inr acc)
        | Some c \<Rightarrow> (case cf' c of None \<Rightarrow> Some (Inl KeyError)
                     | Some nxt \<Rightarrow> walk cf' nxt (acc @ [c]))) = Some out"
    show "P cf' cur acc out"
      unfolding P_def
    proof (intro impI allI)
      fix w assume eq: "cf' = cf" and out: "out = Inr w"
      show "case cur of None \<Rightarrow> w = acc | Some n \<Rightarrow> (\<exists>xs. chain cf n xs \<and> w = acc @ xs)"
      proof (cases cur)
        case None
        with body out show ?thesis by simp
      next
        case (Some c)
        show ?thesis
        proof (cases "cf c")
          case None
          with body Some eq out show ?thesis by simp
        next
          case nxt: (Some nxt)
          with body Some eq have "walk cf nxt (acc @ [c]) = Some out" by simp
          from IH[OF this] out
          have rec: "case nxt of None \<Rightarrow> w = acc @ [c]
                     | Some n \<Rightarrow> (\<exists>xs. chain cf n xs \<and> w = (acc @ [c]) @ xs)"
            unfolding P_def by simp
          show ?thesis
          proof (cases nxt)
            case None
            with rec nxt Some show ?thesis
              by (auto intro: chain.chain_root)
          next
            case (Some p)
            with rec obtain xs where "chain cf p xs" "w = (acc @ [c]) @ xs" by auto
            with nxt Some \<open>cur = Some c\<close> show ?thesis
              by (auto intro: chain.chain_step)
          qed
        qed
      qed
    qed
  qed
  then show ?thesis unfolding P_def by simp
qed

lemma reconstruct_path_chain:
  assumes "chain cf goal xs"
  shows "reconstruct_path cf start goal =
           Some (Inr (if last xs = start then rev xs else []))"
  using assms chain_nonempty[OF assms]
  by (simp add: reconstruct_path_def walk_of_chain[where acc="[]", simplified] hd_rev)

lemma reconstruct_path_missing:
  "cf goal = None \<Longrightarrow> reconstruct_path cf start goal = Some (Inl KeyError)"
  by (simp add: reconstruct_path_def reconstruct_walk.simps)

lemma reconstruct_path_returns:
  assumes "reconstruct_path cf start goal = Some (Inr p)"
  shows "\<exists>xs. chain cf goal xs \<and> p = (if last xs = start then rev xs else [])"
proof -
  from assms obtain w where w: "reconstruct_walk cf (Some goal) [] = Some (Inr w)"
    by (auto simp: reconstruct_path_def split: option.splits sum.splits)
  from chain_of_walk[OF this] obtain xs where xs: "chain cf goal xs" "w = xs" by auto
  from reconstruct_path_chain[OF xs(1), of start] assms show ?thesis
    using xs by auto
qed

lemma chain_route:
  assumes "chain cf n xs" "cf_edges G cf"
  shows "is_route G (last xs) n (rev xs)"
proof -
  have "successively (\<lambda>a b. edge G b a) xs"
    using assms(2)
    by (auto intro!: successively_mono[OF chain_links[OF assms(1)]] simp: cf_edges_def)
  then show ?thesis
    using chain_nonempty[OF assms(1)]
    by (simp add: is_route_def successively_rev hd_rev last_rev)
qed

subsection \<open>The neighbor loop of \<^verbatim>\<open>bfs\<close> and \<^verbatim>\<open>dfs\<close>; termination\<close>

lemma fold_visit:
  "fold (bfs_visit c) ns (cf, fr) = (cf', fr') \<Longrightarrow>
   \<exists>new. fr' = fr @ new \<and> distinct new \<and> set new = set ns - dom cf \<and>
         cf' = (\<lambda>v. if v \<in> set new then Some (Some c) else cf v)"
proof (induction ns arbitrary: cf fr)
  case Nil
  then show ?case by auto
next
  case (Cons n ns)
  show ?case
  proof (cases "cf n")
    case None
    then have "bfs_visit c n (cf, fr) = (cf(n \<mapsto> Some c), fr @ [n])"
      by (simp add: bfs_visit_def)
    with Cons.prems have "fold (bfs_visit c) ns (cf(n \<mapsto> Some c), fr @ [n]) = (cf', fr')"
      by simp
    from Cons.IH[OF this] obtain new where new: "fr' = (fr @ [n]) @ new" "distinct new"
      "set new = set ns - dom (cf(n \<mapsto> Some c))"
      "cf' = (\<lambda>v. if v \<in> set new then Some (Some c) else (cf(n \<mapsto> Some c)) v)"
      by blast
    have "fr' = fr @ (n # new)" using new(1) by simp
    moreover have "distinct (n # new)" using new(2,3) by auto
    moreover have "set (n # new) = set (n # ns) - dom cf" using new(3) None by auto
    moreover have "cf' = (\<lambda>v. if v \<in> set (n # new) then Some (Some c) else cf v)"
      using new(4) by auto
    ultimately show ?thesis by blast
  next
    case (Some a)
    then have "bfs_visit c n (cf, fr) = (cf, fr)"
      by (simp add: bfs_visit_def)
    with Cons.prems have "fold (bfs_visit c) ns (cf, fr) = (cf', fr')"
      by simp
    from Cons.IH[OF this] obtain new where new: "fr' = fr @ new" "distinct new"
      "set new = set ns - dom cf" "cf' = (\<lambda>v. if v \<in> set new then Some (Some c) else cf v)"
      by blast
    moreover have "set ns - dom cf = set (n # ns) - dom cf" using Some by auto
    ultimately show ?thesis by metis
  qed
qed

lemma finite_targets: "finite (dom G) \<Longrightarrow> finite (targets G)"
  by (simp add: targets_def finite_ran)

lemma neighbors_targets: "set (neighbors G c) \<subseteq> targets G"
proof (cases "G c")
  case None
  then show ?thesis by (simp add: neighbors_def)
next
  case (Some ns)
  then have "ns \<in> ran G" by (rule ranI)
  with Some show ?thesis by (auto simp: neighbors_def targets_def)
qed

lemma fold_visit_measure:
  assumes f: "fold (bfs_visit c) (neighbors G c) (cf, fr) = (cf', fr')"
    and fin: "finite (dom G)"
  shows "2 * card (targets G - dom cf') + length fr' \<le> 2 * card (targets G - dom cf) + length fr"
proof -
  from fold_visit[OF f] obtain new where new: "fr' = fr @ new" "distinct new"
    "set new = set (neighbors G c) - dom cf"
    "cf' = (\<lambda>v. if v \<in> set new then Some (Some c) else cf v)"
    by blast
  have dom: "dom cf' = dom cf \<union> set new" using new(4) by (auto simp: dom_def)
  have sub: "set new \<subseteq> targets G - dom cf" using new(3) neighbors_targets[of G c] by auto
  have finT: "finite (targets G - dom cf)" using finite_targets[OF fin] by simp
  have "targets G - dom cf' = (targets G - dom cf) - set new" using dom by auto
  then have "card (targets G - dom cf') = card (targets G - dom cf) - card (set new)"
    using sub by (simp add: card_Diff_subset)
  moreover have "card (set new) \<le> card (targets G - dom cf)"
    using sub finT by (rule card_mono[rotated])
  moreover have "card (set new) = length new" using new(2) by (rule distinct_card)
  ultimately show ?thesis using new(1) by simp
qed

lemma bfs_loop_terminates:
  assumes fin: "finite (dom G)"
  shows "\<exists>r. bfs_loop G goal fr cf vc vo = Some r"
proof (induction "2 * card (targets G - dom cf) + length fr" arbitrary: fr cf vc vo
    rule: less_induct)
  case less
  show ?case
  proof (cases fr)
    case Nil
    then show ?thesis by (subst bfs_loop.simps) simp
  next
    case (Cons c rest)
    show ?thesis
    proof (cases "c = goal")
      case True
      with Cons show ?thesis by (subst bfs_loop.simps) simp
    next
      case False
      obtain cf' fr' where f: "fold (bfs_visit c) (neighbors G c) (cf, rest) = (cf', fr')"
        by (cases "fold (bfs_visit c) (neighbors G c) (cf, rest)") auto
      from fold_visit_measure[OF f fin] Cons
      have "2 * card (targets G - dom cf') + length fr' < 2 * card (targets G - dom cf) + length fr"
        by simp
      from less[OF this] obtain r where
        r: "bfs_loop G goal fr' cf' (vc + 1) (vo @ [c]) = Some r" by blast
      have "bfs_loop G goal fr cf vc vo = bfs_loop G goal fr' cf' (vc + 1) (vo @ [c])"
        using Cons False f by (subst bfs_loop.simps) simp
      with r show ?thesis by metis
    qed
  qed
qed

lemma dfs_loop_terminates:
  assumes fin: "finite (dom G)"
  shows "\<exists>r. dfs_loop G goal st cf vc vo = Some r"
proof (induction "2 * card (targets G - dom cf) + length st" arbitrary: st cf vc vo
    rule: less_induct)
  case less
  show ?case
  proof (cases "st = []")
    case True
    then show ?thesis by (subst dfs_loop.simps) simp
  next
    case ne: False
    show ?thesis
    proof (cases "last st = goal")
      case True
      with ne show ?thesis by (subst dfs_loop.simps) (simp add: Let_def)
    next
      case False
      obtain cf' st' where f:
        "fold (bfs_visit (last st)) (neighbors G (last st)) (cf, butlast st) = (cf', st')"
        by (cases "fold (bfs_visit (last st)) (neighbors G (last st)) (cf, butlast st)") auto
      from ne have "length (butlast st) < length st" by (cases st rule: rev_cases) auto
      with fold_visit_measure[OF f fin]
      have "2 * card (targets G - dom cf') + length st' < 2 * card (targets G - dom cf) + length st"
        by simp
      from less[OF this] obtain r where
        r: "dfs_loop G goal st' cf' (vc + 1) (vo @ [last st]) = Some r" by blast
      have "dfs_loop G goal st cf vc vo = dfs_loop G goal st' cf' (vc + 1) (vo @ [last st])"
        using ne False f by (subst dfs_loop.simps) (simp add: Let_def)
      with r show ?thesis by metis
    qed
  qed
qed

lemma fold_visit_dom:
  assumes "fold (bfs_visit c) ns (cf, fr) = (cf', fr')"
  shows "dom cf' = dom cf \<union> set ns"
proof -
  from fold_visit[OF assms] obtain new where
    "set new = set ns - dom cf" "cf' = (\<lambda>v. if v \<in> set new then Some (Some c) else cf v)"
    by blast
  then show ?thesis by (auto simp: dom_def)
qed

lemma fold_visit_edges:
  assumes f: "fold (bfs_visit c) (neighbors G c) (cf, fr) = (cf', fr')"
    and e: "cf_edges G cf"
  shows "cf_edges G cf'"
proof -
  from fold_visit[OF f] obtain new where
    "set new = set (neighbors G c) - dom cf"
    "cf' = (\<lambda>v. if v \<in> set new then Some (Some c) else cf v)"
    by blast
  with e show ?thesis by (auto simp: cf_edges_def edge_def)
qed

lemma cf_edges_init: "cf_edges G [s \<mapsto> None]"
  by (simp add: cf_edges_def)

text \<open>What the two loops hand to \<^verbatim>\<open>reconstruct_path\<close>.\<close>

lemma bfs_loop_facts:
  assumes run: "bfs_loop G goal [s] [s \<mapsto> None] 0 [] = Some (fr, cf, vc, vo)"
  shows "cf_edges G cf \<and> vc = int (length vo) \<and> distinct (vo @ fr) \<and> set (vo @ fr) = dom cf"
proof -
  define I where "I = (\<lambda>fr cf (vc::int) vo.
    cf_edges G cf \<and> vc = int (length vo) \<and> distinct (vo @ fr) \<and> set (vo @ fr) = dom cf)"
  have init: "I [s] [s \<mapsto> None] 0 []"
    by (simp add: I_def cf_edges_init)
  have step: "I fr' cf' (vc + 1) (vo @ [c])"
    if inv: "I (c # rest) cf vc vo" and "c \<noteq> goal"
      and f: "fold (bfs_visit c) (neighbors G c) (cf, rest) = (cf', fr')"
    for c rest cf vc vo cf' fr'
  proof -
    from fold_visit[OF f] obtain new where new: "fr' = rest @ new" "distinct new"
      "set new = set (neighbors G c) - dom cf" by blast
    have "dom cf' = dom cf \<union> set (neighbors G c)" using f by (rule fold_visit_dom)
    with inv new fold_visit_edges[OF f] show ?thesis
      unfolding I_def by auto
  qed
  have "(\<exists>cf' vc' vo'. I [] cf' vc' vo' \<and> (fr, cf, vc, vo) = ([], cf', vc', vo')) \<or>
         (\<exists>rest cf' vc' vo'. I (goal # rest) cf' vc' vo' \<and>
             (fr, cf, vc, vo) = (rest, cf', vc' + 1, vo' @ [goal]))"
    by (rule bfs_loop_rule[where I=I, OF run init]) (rule step; assumption)
  then show ?thesis unfolding I_def by auto
qed

lemma dfs_loop_facts:
  assumes run: "dfs_loop G goal [s] [s \<mapsto> None] 0 [] = Some (st, cf, vc, vo)"
  shows "cf_edges G cf \<and> vc = int (length vo) \<and> distinct (vo @ st) \<and> set (vo @ st) = dom cf"
proof -
  define I where "I = (\<lambda>st cf (vc::int) vo.
    cf_edges G cf \<and> vc = int (length vo) \<and> distinct (vo @ st) \<and> set (vo @ st) = dom cf)"
  have init: "I [s] [s \<mapsto> None] 0 []"
    by (simp add: I_def cf_edges_init)
  have step: "I st' cf' (vc + 1) (vo @ [last st])"
    if inv: "I st cf vc vo" and ne: "st \<noteq> []" and "last st \<noteq> goal"
      and f: "fold (bfs_visit (last st)) (neighbors G (last st)) (cf, butlast st) = (cf', st')"
    for st cf vc vo cf' st'
  proof -
    from fold_visit[OF f] obtain new where new: "st' = butlast st @ new" "distinct new"
      "set new = set (neighbors G (last st)) - dom cf" by blast
    have dom: "dom cf' = dom cf \<union> set (neighbors G (last st))" using f by (rule fold_visit_dom)
    from ne have st: "st = butlast st @ [last st]" by simp
    from inv have d: "distinct (vo @ butlast st @ [last st])" "set (vo @ butlast st @ [last st]) = dom cf"
      unfolding I_def using st by metis+
    from inv have e: "cf_edges G cf" "vc = int (length vo)" unfolding I_def by auto
    show ?thesis
      unfolding I_def using d e new dom fold_visit_edges[OF f e(1)] by auto
  qed
  have "(\<exists>cf' vc' vo'. I [] cf' vc' vo' \<and> (st, cf, vc, vo) = ([], cf', vc', vo')) \<or>
         (\<exists>st' cf' vc' vo'. I st' cf' vc' vo' \<and> st' \<noteq> [] \<and> last st' = goal \<and>
             (st, cf, vc, vo) = (butlast st', cf', vc' + 1, vo' @ [goal]))"
    by (rule dfs_loop_rule[where I=I, OF run init]) (rule step; assumption)
  then show ?thesis
  proof
    assume "\<exists>cf' vc' vo'. I [] cf' vc' vo' \<and> (st, cf, vc, vo) = ([], cf', vc', vo')"
    then show ?thesis unfolding I_def by auto
  next
    assume "\<exists>st' cf' vc' vo'. I st' cf' vc' vo' \<and> st' \<noteq> [] \<and> last st' = goal \<and>
             (st, cf, vc, vo) = (butlast st', cf', vc' + 1, vo' @ [goal])"
    then obtain st' vo' where I': "I st' cf (vc - 1) vo'" and ne: "st' \<noteq> []" "last st' = goal"
      and eq: "st = butlast st'" "vo = vo' @ [goal]" by auto
    from ne have st: "st' = butlast st' @ [goal]" by (metis append_butlast_last_id)
    from I' have d: "distinct (vo' @ butlast st' @ [goal])" "set (vo' @ butlast st' @ [goal]) = dom cf"
      unfolding I_def using st by metis+
    with I' eq show ?thesis unfolding I_def by auto
  qed
qed

subsection \<open>The heap\<close>

lemma fold_least_mem:
  "fold (\<lambda>x m. if tuple_less x m then x else m) xs a \<in> set (a # xs)"
  by (induction xs arbitrary: a) (auto split: if_splits)

lemma fold_least_le_init:
  "fst (fold (\<lambda>x m. if tuple_less x m then x else m) xs a) \<le> fst a"
proof (induction xs arbitrary: a)
  case Nil
  then show ?case by simp
next
  case (Cons x xs)
  show ?case
  proof (cases "tuple_less x a")
    case True
    then have "fst x \<le> fst a" by (cases x; cases a) (auto split: if_splits)
    with Cons[of x] True show ?thesis by simp
  next
    case False
    with Cons[of a] show ?thesis by simp
  qed
qed

lemma fold_least_le:
  "x \<in> set xs \<Longrightarrow> fst (fold (\<lambda>x m. if tuple_less x m then x else m) xs a) \<le> fst x"
proof (induction xs arbitrary: a)
  case Nil
  then show ?case by simp
next
  case (Cons y ys)
  show ?case
  proof (cases "x = y")
    case True
    have "fst (fold (\<lambda>x m. if tuple_less x m then x else m) ys (if tuple_less y a then y else a))
            \<le> fst (if tuple_less y a then y else a)"
      by (rule fold_least_le_init)
    moreover have "fst (if tuple_less y a then y else a) \<le> fst y"
      by (cases y; cases a) (auto split: if_splits)
    ultimately show ?thesis using True by simp
  next
    case False
    with Cons.prems have "x \<in> set ys" by simp
    from Cons.IH[OF this] show ?thesis by simp
  qed
qed

lemma heap_least_mem: "hp \<noteq> [] \<Longrightarrow> heap_least hp \<in> set hp"
  using fold_least_mem[of "tl hp" "hd hp"] by (cases hp) (auto simp: heap_least_def)

lemma heap_least_le: "x \<in> set hp \<Longrightarrow> fst (heap_least hp) \<le> fst x"
proof (cases hp)
  case Nil
  assume "x \<in> set hp"
  with Nil show ?thesis by simp
next
  case (Cons a xs)
  assume "x \<in> set hp"
  with Cons have "x = a \<or> x \<in> set xs" by auto
  then show ?thesis
    using fold_least_le_init[of xs a] fold_least_le[of x xs a] Cons
    by (auto simp: heap_least_def)
qed

lemma heappop_facts:
  assumes "hp \<noteq> []" "heappop hp = ((f, c), popped)"
  shows "(f, c) \<in> set hp" "popped = remove1 (f, c) hp" "length hp = Suc (length popped)"
    "\<And>f' n. (f', n) \<in> set hp \<Longrightarrow> f \<le> f'"
proof -
  from assms(2) have l: "heap_least hp = (f, c)" and p: "popped = remove1 (f, c) hp"
    by (auto simp: heappop_def)
  show m: "(f, c) \<in> set hp" using heap_least_mem[OF assms(1)] l by simp
  show "popped = remove1 (f, c) hp" by (rule p)
  have "length popped = length hp - 1" using m p by (simp add: length_remove1)
  moreover have "0 < length hp" using assms(1) by simp
  ultimately show "length hp = Suc (length popped)" by simp
  show "f \<le> f'" if "(f', n) \<in> set hp" for f' n
    using heap_least_le[OF that] l by simp
qed

subsection \<open>The neighbor loop of astar\<close>

lemma astar_relax_step:
  "gs c = Some gc \<Longrightarrow>
   astar_relax pos goal c nb (Inr (hp, cf, gs)) =
     (if (case gs nb of None \<Rightarrow> True | Some gn \<Rightarrow> gc + 1 < gn)
      then Inr (hp @ [(gc + 1 + heuristic pos goal nb, nb)], cf(nb \<mapsto> Some c), gs(nb \<mapsto> gc + 1))
      else Inr (hp, cf, gs))"
  by (simp add: astar_relax_def heappush_def Let_def)

lemma astar_fold_rule:
  assumes init: "J done hp cf gs" and gc: "gs c = Some gc"
    and relax: "\<And>done hp cf gs nb. J done hp cf gs \<Longrightarrow> gs c = Some gc \<Longrightarrow> nb \<in> set ns \<Longrightarrow>
        nb \<noteq> c \<Longrightarrow> (case gs nb of None \<Rightarrow> True | Some gn \<Rightarrow> gc + 1 < gn) \<Longrightarrow>
        J (done @ [nb]) (hp @ [(gc + 1 + heuristic pos goal nb, nb)]) (cf(nb \<mapsto> Some c))
          (gs(nb \<mapsto> gc + 1))"
    and skip: "\<And>done hp cf gs nb. J done hp cf gs \<Longrightarrow> gs c = Some gc \<Longrightarrow> nb \<in> set ns \<Longrightarrow>
        \<not> (case gs nb of None \<Rightarrow> True | Some gn \<Rightarrow> gc + 1 < gn) \<Longrightarrow>
        J (done @ [nb]) hp cf gs"
  shows "\<exists>hp' cf' gs'. fold (astar_relax pos goal c) ns (Inr (hp, cf, gs)) = Inr (hp', cf', gs') \<and>
           J (done @ ns) hp' cf' gs' \<and> gs' c = Some gc"
  using init gc relax skip
proof (induction ns arbitrary: "done" hp cf gs)
  case Nil
  then show ?case by simp
next
  case (Cons nb ns)
  let ?cond = "(case gs nb of None \<Rightarrow> True | Some gn \<Rightarrow> gc + 1 < gn)"
  show ?case
  proof (cases ?cond)
    case True
    have ne: "nb \<noteq> c" using True Cons.prems(2) by auto
    have J': "J (done @ [nb]) (hp @ [(gc + 1 + heuristic pos goal nb, nb)]) (cf(nb \<mapsto> Some c))
          (gs(nb \<mapsto> gc + 1))"
      by (rule Cons.prems(3)[OF Cons.prems(1,2) _ ne True]) simp
    have gc': "(gs(nb \<mapsto> gc + 1)) c = Some gc" using ne Cons.prems(2) by simp
    have "\<exists>hp' cf' gs'. fold (astar_relax pos goal c) ns
            (Inr (hp @ [(gc + 1 + heuristic pos goal nb, nb)], cf(nb \<mapsto> Some c), gs(nb \<mapsto> gc + 1)))
            = Inr (hp', cf', gs') \<and> J ((done @ [nb]) @ ns) hp' cf' gs' \<and> gs' c = Some gc"
      by (rule Cons.IH[OF J' gc']; (rule Cons.prems(3) | rule Cons.prems(4)); (assumption | simp))
    then show ?thesis
      using True by (simp add: astar_relax_step[of gs c gc, OF Cons.prems(2)])
  next
    case False
    have J': "J (done @ [nb]) hp cf gs"
      by (rule Cons.prems(4)[OF Cons.prems(1,2) _ False]) simp
    have "\<exists>hp' cf' gs'. fold (astar_relax pos goal c) ns (Inr (hp, cf, gs))
            = Inr (hp', cf', gs') \<and> J ((done @ [nb]) @ ns) hp' cf' gs' \<and> gs' c = Some gc"
      by (rule Cons.IH[OF J' Cons.prems(2)]; (rule Cons.prems(3) | rule Cons.prems(4));
          (assumption | simp))
    then show ?thesis
      using False by (simp add: astar_relax_step[of gs c gc, OF Cons.prems(2)])
  qed
qed

subsection \<open>The invariant of the \<^verbatim>\<open>astar\<close> loop; termination\<close>

lemma astar_inv_init: "astar_inv G start (heappush [] (0, start)) [start \<mapsto> None] [start \<mapsto> 0]"
  by (simp add: astar_inv_def heappush_def cf_edges_def)

lemma astar_inv_pop:
  "astar_inv G start hp cf gs \<Longrightarrow> astar_inv G start (remove1 x hp) cf gs"
  unfolding astar_inv_def using set_remove1_subset[of x hp] by blast

lemma astar_inv_relax:
  assumes inv: "astar_inv G start hp cf gs" and gc: "gs c = Some gc"
    and nb: "nb \<in> set (neighbors G c)" "nb \<noteq> c"
    and cond: "(case gs nb of None \<Rightarrow> True | Some gn \<Rightarrow> gc + 1 < gn)"
  shows "astar_inv G start (hp @ [(f, nb)]) (cf(nb \<mapsto> Some c)) (gs(nb \<mapsto> gc + 1))"
proof -
  have nat: "gc \<in> \<nat>" using inv gc unfolding astar_inv_def by blast
  then have gc0: "0 \<le> gc" by (auto elim: Nats_cases)
  have ns: "nb \<noteq> start"
  proof
    assume "nb = start"
    with inv have "gs nb = Some 0" unfolding astar_inv_def by simp
    with cond gc0 show False by simp
  qed
  have 1: "\<forall>x \<in> set (hp @ [(f, nb)]). snd x \<in> dom (gs(nb \<mapsto> gc + 1))"
    using inv unfolding astar_inv_def by auto
  have 2: "dom (cf(nb \<mapsto> Some c)) = dom (gs(nb \<mapsto> gc + 1))"
    using inv unfolding astar_inv_def by auto
  have 3: "cf_edges G (cf(nb \<mapsto> Some c))"
    using inv nb(1) unfolding astar_inv_def cf_edges_def edge_def by auto
  have 4: "(cf(nb \<mapsto> Some c)) start = Some None \<and> (gs(nb \<mapsto> gc + 1)) start = Some 0 \<and>
      (\<forall>n. (cf(nb \<mapsto> Some c)) n = Some None \<longrightarrow> n = start)"
    using inv ns unfolding astar_inv_def by auto
  have 5: "\<forall>n g. (gs(nb \<mapsto> gc + 1)) n = Some g \<longrightarrow> g \<in> \<nat>"
    using inv nat unfolding astar_inv_def by (auto intro: Nats_add)
  have 6: "\<exists>gp gn. (gs(nb \<mapsto> gc + 1)) p = Some gp \<and> (gs(nb \<mapsto> gc + 1)) n = Some gn \<and> gp + 1 \<le> gn"
    if cf: "(cf(nb \<mapsto> Some c)) n = Some (Some p)" for n p
  proof (cases "n = nb")
    case True
    with cf have "p = c" by simp
    with True gc nb(2) show ?thesis by simp
  next
    case False
    with cf have "cf n = Some (Some p)" by simp
    with inv obtain gp gn where g: "gs p = Some gp" "gs n = Some gn" "gp + 1 \<le> gn"
      unfolding astar_inv_def by blast
    show ?thesis
    proof (cases "p = nb")
      case True
      with g cond have "gc + 1 < gp" by simp
      with g True False show ?thesis by simp
    next
      case pf: False
      with g False show ?thesis by simp
    qed
  qed
  have 7: "dom (gs(nb \<mapsto> gc + 1)) \<subseteq> insert start (targets G)"
    using inv nb(1) neighbors_targets[of G c] unfolding astar_inv_def by auto
  show ?thesis
    unfolding astar_inv_def using 1 2 3 4 5 6 7 by blast
qed

lemma astar_inv_chain:
  assumes inv: "astar_inv G start hp cf gs"
  shows "gs n = Some (real k) \<Longrightarrow> \<exists>xs. chain cf n xs \<and> last xs = start \<and> length xs \<le> Suc k"
proof (induction k arbitrary: n rule: less_induct)
  case (less k)
  from inv less.prems have "n \<in> dom cf" unfolding astar_inv_def by auto
  then obtain v where v: "cf n = Some v" by auto
  show ?case
  proof (cases v)
    case None
    with v inv have "n = start" unfolding astar_inv_def by blast
    with v None show ?thesis by (auto intro!: exI[of _ "[n]"] chain.chain_root)
  next
    case (Some p)
    with v inv obtain gp gn where g: "gs p = Some gp" "gs n = Some gn" "gp + 1 \<le> gn"
      unfolding astar_inv_def by blast
    from inv g(1) have "gp \<in> \<nat>" unfolding astar_inv_def by blast
    then obtain j where j: "gp = real j" by (auto elim: Nats_cases)
    with g less.prems have "j < k" by simp
    from less.IH[OF this] g(1) j obtain xs where xs: "chain cf p xs" "last xs = start" "length xs \<le> Suc j"
      by blast
    from xs(1) have "xs \<noteq> []" by (simp add: chain_nonempty)
    with xs v Some \<open>j < k\<close> show ?thesis
      by (auto intro!: exI[of _ "n # xs"] chain.chain_step)
  qed
qed

lemma astar_inv_finish:
  assumes inv: "astar_inv G start hp cf gs" and mem: "(f, goal) \<in> set hp"
  shows "\<exists>p. finish cf start goal vc vo = Some (Inr (make_result p vc vo)) \<and>
             is_route G start goal p"
proof -
  from inv have "\<forall>x \<in> set hp. snd x \<in> dom gs" unfolding astar_inv_def by blast
  with mem have "snd (f, goal) \<in> dom gs" by blast
  then obtain g where g: "gs goal = Some g" by auto
  with inv have "g \<in> \<nat>" unfolding astar_inv_def by blast
  then obtain k where "g = real k" by (auto elim: Nats_cases)
  with g astar_inv_chain[OF inv] obtain xs where xs: "chain cf goal xs" "last xs = start"
    by blast
  from inv have "cf_edges G cf" unfolding astar_inv_def by blast
  from chain_route[OF xs(1) this] xs(2) have "is_route G start goal (rev xs)" by simp
  moreover have "finish cf start goal vc vo = Some (Inr (make_result (rev xs) vc vo))"
    using reconstruct_path_chain[OF xs(1), of start] xs(2) by (simp add: finish_def)
  ultimately show ?thesis by blast
qed

lemma astar_inv_fold:
  assumes inv: "astar_inv G start hp cf gs" and gc: "gs c = Some gc"
  shows "\<exists>hp' cf' gs'.
     fold (astar_relax pos goal c) (neighbors G c) (Inr (hp, cf, gs)) = Inr (hp', cf', gs') \<and>
     astar_inv G start hp' cf' gs'"
proof -
  have "\<exists>hp' cf' gs'.
     fold (astar_relax pos goal c) (neighbors G c) (Inr (hp, cf, gs)) = Inr (hp', cf', gs') \<and>
     astar_inv G start hp' cf' gs' \<and> gs' c = Some gc"
  proof (rule astar_fold_rule[where J="\<lambda>done. astar_inv G start" and ?done="[]" and gc=gc])
    show "astar_inv G start hp cf gs" by (rule inv)
    show "gs c = Some gc" by (rule gc)
  next
    fix hp cf gs nb
    assume "astar_inv G start hp cf gs" "gs c = Some gc" "nb \<in> set (neighbors G c)" "nb \<noteq> c"
      "case gs nb of None \<Rightarrow> True | Some gn \<Rightarrow> gc + 1 < gn"
    then show "astar_inv G start (hp @ [(gc + 1 + heuristic pos goal nb, nb)]) (cf(nb \<mapsto> Some c))
       (gs(nb \<mapsto> gc + 1))"
      by (rule astar_inv_relax)
  next
    fix hp cf gs
    assume "astar_inv G start hp cf gs"
    then show "astar_inv G start hp cf gs" .
  qed
  then show ?thesis by blast
qed

lemma astar_less_trans:
  "astar_less G start a b \<Longrightarrow> astar_less G start b c \<Longrightarrow> astar_less G start a c"
  unfolding astar_less_def by linarith

lemma astar_relax_less:
  assumes fin: "finite (dom G)" and inv: "astar_inv G start hp cf gs" and gc: "gs c = Some gc"
    and nb: "nb \<in> set (neighbors G c)"
    and cond: "(case gs nb of None \<Rightarrow> True | Some gn \<Rightarrow> gc + 1 < gn)"
  shows "astar_less G start (gs(nb \<mapsto> gc + 1)) gs"
proof -
  let ?N = "insert start (targets G)"
  have finN: "finite ?N" using finite_targets[OF fin] by simp
  have nbN: "nb \<in> ?N" using nb neighbors_targets[of G c] by auto
  show ?thesis
  proof (cases "gs nb")
    case None
    have eq: "?N - dom (gs(nb \<mapsto> gc + 1)) = (?N - dom gs) - {nb}" by auto
    have "nb \<in> ?N - dom gs" using nbN None by auto
    moreover have "finite (?N - dom gs)" using finN by simp
    ultimately have "card ((?N - dom gs) - {nb}) < card (?N - dom gs)"
      by (rule card_Diff1_less[rotated])
    then have "card (?N - dom (gs(nb \<mapsto> gc + 1))) < card (?N - dom gs)"
      unfolding eq .
    then show ?thesis by (simp add: astar_less_def undiscovered_def)
  next
    case (Some gn)
    with cond have lt: "gc + 1 < gn" by simp
    have "gc \<in> \<nat>" using inv gc unfolding astar_inv_def by blast
    then obtain k where k: "gc = real k" by (auto elim: Nats_cases)
    have "gn \<in> \<nat>" using inv Some unfolding astar_inv_def by blast
    then obtain j where j: "gn = real j" by (auto elim: Nats_cases)
    from lt k j have kj: "Suc k < j" by simp
    have dom: "dom (gs(nb \<mapsto> gc + 1)) = dom gs" using Some by auto
    let ?w = "\<lambda>gs n. case gs n of None \<Rightarrow> 0 | Some g \<Rightarrow> nat \<lfloor>g::real\<rfloor>"
    have w1: "?w (gs(nb \<mapsto> gc + 1)) nb = Suc k" using k by simp
    have w2: "?w gs nb = j" using Some j by simp
    have "(\<Sum>n \<in> ?N. ?w (gs(nb \<mapsto> gc + 1)) n) < (\<Sum>n \<in> ?N. ?w gs n)"
    proof (rule sum_strict_mono_ex1[OF finN])
      show "\<forall>n \<in> ?N. ?w (gs(nb \<mapsto> gc + 1)) n \<le> ?w gs n"
        using w1 w2 kj by auto
      show "\<exists>n \<in> ?N. ?w (gs(nb \<mapsto> gc + 1)) n < ?w gs n"
        using nbN w1 w2 kj by (intro bexI[of _ nb]) auto
    qed
    then show ?thesis
      unfolding astar_less_def undiscovered_def score_sum_def dom by simp
  qed
qed

lemma astar_fold_less:
  assumes fin: "finite (dom G)" and inv: "astar_inv G start hp cf gs" and gc: "gs c = Some gc"
  shows "\<exists>hp' cf' gs'.
     fold (astar_relax pos goal c) (neighbors G c) (Inr (hp, cf, gs)) = Inr (hp', cf', gs') \<and>
     astar_inv G start hp' cf' gs' \<and> (astar_less G start gs' gs \<or> gs' = gs \<and> hp' = hp)"
proof -
  define J where "J = (\<lambda>(d :: 'a list) hp' cf' gs'. astar_inv G start hp' cf' gs' \<and>
     (astar_less G start gs' gs \<or> gs' = gs \<and> hp' = hp))"
  have "\<exists>hp' cf' gs'.
     fold (astar_relax pos goal c) (neighbors G c) (Inr (hp, cf, gs)) = Inr (hp', cf', gs') \<and>
     J ([] @ neighbors G c) hp' cf' gs' \<and> gs' c = Some gc"
  proof (rule astar_fold_rule[where J=J and ?done="[]" and gc=gc])
    show "J [] hp cf gs" using inv by (simp add: J_def)
    show "gs c = Some gc" by (rule gc)
  next
    fix d hp1 cf1 gs1 nb
    assume J1: "J d hp1 cf1 gs1" and g1: "gs1 c = Some gc" and nb: "nb \<in> set (neighbors G c)"
      "nb \<noteq> c" and cond: "case gs1 nb of None \<Rightarrow> True | Some gn \<Rightarrow> gc + 1 < gn"
    from J1 have inv1: "astar_inv G start hp1 cf1 gs1"
      and l1: "astar_less G start gs1 gs \<or> gs1 = gs \<and> hp1 = hp" by (simp_all add: J_def)
    have "astar_less G start (gs1(nb \<mapsto> gc + 1)) gs1"
      by (rule astar_relax_less[OF fin inv1 g1 nb(1) cond])
    with l1 have "astar_less G start (gs1(nb \<mapsto> gc + 1)) gs"
      by (auto intro: astar_less_trans)
    moreover have "astar_inv G start (hp1 @ [(gc + 1 + heuristic pos goal nb, nb)])
        (cf1(nb \<mapsto> Some c)) (gs1(nb \<mapsto> gc + 1))"
      by (rule astar_inv_relax[OF inv1 g1 nb cond])
    ultimately show "J (d @ [nb]) (hp1 @ [(gc + 1 + heuristic pos goal nb, nb)])
        (cf1(nb \<mapsto> Some c)) (gs1(nb \<mapsto> gc + 1))"
      by (simp add: J_def)
  next
    fix d hp1 cf1 gs1 nb
    assume "J d hp1 cf1 gs1"
    then show "J (d @ [nb]) hp1 cf1 gs1" by (simp add: J_def)
  qed
  then show ?thesis unfolding J_def by auto
qed

lemma astar_loop_terminates:
  assumes fin: "finite (dom G)" and inv: "astar_inv G start hp cf gs"
  shows "\<exists>out. astar_loop G pos start goal hp cf gs vc vo = Some out"
proof -
  define R where "R = measures [\<lambda>(hp :: (real \<times> 'a) list, gs). undiscovered G start gs,
     \<lambda>(hp, gs). score_sum G start gs, \<lambda>(hp, gs). length hp]"
  have wf: "wf R" by (simp add: R_def)
  have "\<forall>hp cf gs vc vo. st = (hp, gs) \<longrightarrow> astar_inv G start hp cf gs \<longrightarrow>
          (\<exists>out. astar_loop G pos start goal hp cf gs vc vo = Some out)" for st
    using wf
  proof (induction st rule: wf_induct_rule)
    case (less st)
    show ?case
    proof (intro allI impI)
      fix hp cf gs vc vo
      assume st: "st = (hp, gs)" and inv: "astar_inv G start hp cf gs"
      show "\<exists>out. astar_loop G pos start goal hp cf gs vc vo = Some out"
      proof (cases "hp = []")
        case True
        then show ?thesis by (subst astar_loop.simps) simp
      next
        case ne: False
        obtain f c popped where pop: "heappop hp = ((f, c), popped)"
          by (cases "heappop hp") auto
        note hf = heappop_facts[OF ne pop]
        show ?thesis
        proof (cases "c = goal")
          case True
          from astar_inv_finish[OF inv, of f goal "vc + 1" "vo @ [goal]"] hf(1) True
          obtain p where "finish cf start goal (vc + 1) (vo @ [goal]) =
              Some (Inr (make_result p (vc + 1) (vo @ [goal])))" by blast
          with ne pop True show ?thesis by (subst astar_loop.simps) simp
        next
          case False
          have invp: "astar_inv G start popped cf gs"
            unfolding hf(2) by (rule astar_inv_pop[OF inv])
          from inv hf(1) have "snd (f, c) \<in> dom gs" unfolding astar_inv_def by blast
          then obtain gc where gc: "gs c = Some gc" by auto
          from astar_fold_less[OF fin invp gc, of pos goal] obtain hp' cf' gs' where
            f': "fold (astar_relax pos goal c) (neighbors G c) (Inr (popped, cf, gs))
                  = Inr (hp', cf', gs')"
            and inv': "astar_inv G start hp' cf' gs'"
            and dec: "astar_less G start gs' gs \<or> gs' = gs \<and> hp' = popped"
            by blast
          have "((hp', gs'), st) \<in> R"
            using dec hf(3) unfolding R_def st astar_less_def by auto
          from less[OF this] inv' obtain out where
            "astar_loop G pos start goal hp' cf' gs' (vc + 1) (vo @ [c]) = Some out" by blast
          with ne pop False f' show ?thesis by (subst astar_loop.simps) simp
        qed
      qed
    qed
  qed
  with inv show ?thesis by blast
qed

subsection \<open>What the three searches return\<close>

lemma chain_mono:
  "chain cf n xs \<Longrightarrow> (\<And>v. v \<in> dom cf \<Longrightarrow> cf' v = cf v) \<Longrightarrow> chain cf' n xs"
proof (induction rule: chain.induct)
  case (chain_root n)
  then have "cf' n = Some None" by (simp add: domI)
  then show ?case by (rule chain.chain_root)
next
  case (chain_step n p xs)
  then have "cf' n = Some (Some p)" by (simp add: domI)
  moreover have "chain cf' p xs" using chain_step by blast
  ultimately show ?case by (rule chain.chain_step)
qed

lemma rooted_init: "rooted [s \<mapsto> None] s"
  by (auto simp: rooted_def intro!: exI[of _ "[s]"] chain.chain_root)

lemma fold_visit_rooted:
  assumes f: "fold (bfs_visit c) ns (cf, fr) = (cf', fr')"
    and r: "rooted cf s" and c: "c \<in> dom cf"
  shows "rooted cf' s"
proof -
  from fold_visit[OF f] obtain new where new: "set new = set ns - dom cf"
    "cf' = (\<lambda>v. if v \<in> set new then Some (Some c) else cf v)" by blast
  have agree: "cf' v = cf v" if "v \<in> dom cf" for v using that new by auto
  from r c obtain xc where xc: "chain cf c xc" "last xc = s" unfolding rooted_def by blast
  have xc': "chain cf' c xc" using xc(1) agree by (rule chain_mono)
  show ?thesis
    unfolding rooted_def
  proof
    fix n assume n: "n \<in> dom cf'"
    show "\<exists>xs. chain cf' n xs \<and> last xs = s"
    proof (cases "n \<in> set new")
      case True
      then have "cf' n = Some (Some c)" using new(2) by simp
      then have "chain cf' n (n # xc)" using xc' by (rule chain.chain_step)
      moreover have "last (n # xc) = s" using xc chain_nonempty[OF xc(1)] by simp
      ultimately show ?thesis by blast
    next
      case False
      with n new(2) have "n \<in> dom cf" by (auto simp: dom_def)
      with r obtain xs where xs: "chain cf n xs" "last xs = s" unfolding rooted_def by blast
      have "chain cf' n xs" using xs(1) agree by (rule chain_mono)
      with xs(2) show ?thesis by blast
    qed
  qed
qed

lemma bfs_loop_rooted:
  assumes run: "bfs_loop G goal [s] [s \<mapsto> None] 0 [] = Some (fr, cf, vc, vo)"
  shows "rooted cf s"
proof -
  define I where "I = (\<lambda>fr cf (vc::int) (vo :: 'a list). rooted cf s \<and> set fr \<subseteq> dom cf)"
  have init: "I [s] [s \<mapsto> None] 0 []" by (simp add: I_def rooted_init)
  have step: "I fr' cf' (vc + 1) (vo @ [c])"
    if inv: "I (c # rest) cf vc vo" and "c \<noteq> goal"
      and f: "fold (bfs_visit c) (neighbors G c) (cf, rest) = (cf', fr')"
    for c rest cf vc vo cf' fr'
  proof -
    from fold_visit[OF f] obtain new where new: "fr' = rest @ new"
      "set new = set (neighbors G c) - dom cf" by blast
    have "dom cf' = dom cf \<union> set (neighbors G c)" using f by (rule fold_visit_dom)
    moreover have "rooted cf' s" using f inv unfolding I_def by (auto intro: fold_visit_rooted)
    ultimately show ?thesis using inv new unfolding I_def by auto
  qed
  have "(\<exists>cf' vc' vo'. I [] cf' vc' vo' \<and> (fr, cf, vc, vo) = ([], cf', vc', vo')) \<or>
         (\<exists>rest cf' vc' vo'. I (goal # rest) cf' vc' vo' \<and>
             (fr, cf, vc, vo) = (rest, cf', vc' + 1, vo' @ [goal]))"
    by (rule bfs_loop_rule[where I=I, OF run init]) (rule step; assumption)
  then show ?thesis unfolding I_def by auto
qed

lemma dfs_loop_rooted:
  assumes run: "dfs_loop G goal [s] [s \<mapsto> None] 0 [] = Some (st, cf, vc, vo)"
  shows "rooted cf s"
proof -
  define I where "I = (\<lambda>st cf (vc::int) (vo :: 'a list). rooted cf s \<and> set st \<subseteq> dom cf)"
  have init: "I [s] [s \<mapsto> None] 0 []" by (simp add: I_def rooted_init)
  have step: "I st' cf' (vc + 1) (vo @ [last st])"
    if inv: "I st cf vc vo" and ne: "st \<noteq> []" and "last st \<noteq> goal"
      and f: "fold (bfs_visit (last st)) (neighbors G (last st)) (cf, butlast st) = (cf', st')"
    for st cf vc vo cf' st'
  proof -
    from fold_visit[OF f] obtain new where new: "st' = butlast st @ new"
      "set new = set (neighbors G (last st)) - dom cf" by blast
    have dom: "dom cf' = dom cf \<union> set (neighbors G (last st))" using f by (rule fold_visit_dom)
    have "last st \<in> set st" using ne by simp
    then have "last st \<in> dom cf" using inv unfolding I_def by blast
    then have "rooted cf' s" using f inv unfolding I_def by (auto intro: fold_visit_rooted)
    moreover have "set (butlast st) \<subseteq> dom cf"
      using inv unfolding I_def by (auto dest: in_set_butlastD)
    ultimately show ?thesis using new dom unfolding I_def by auto
  qed
  have "(\<exists>cf' vc' vo'. I [] cf' vc' vo' \<and> (st, cf, vc, vo) = ([], cf', vc', vo')) \<or>
         (\<exists>st' cf' vc' vo'. I st' cf' vc' vo' \<and> st' \<noteq> [] \<and> last st' = goal \<and>
             (st, cf, vc, vo) = (butlast st', cf', vc' + 1, vo' @ [goal]))"
    by (rule dfs_loop_rule[where I=I, OF run init]) (rule step; assumption)
  then show ?thesis unfolding I_def by auto
qed

text \<open>The call of \<^verbatim>\<open>reconstruct_path\<close> that ends \<^verbatim>\<open>bfs\<close> and \<^verbatim>\<open>dfs\<close>.\<close>

lemma finish_rooted:
  assumes r: "rooted cf s" and e: "cf_edges G cf"
  shows "(cf g = None \<and> finish cf s g vc vo = Some (Inl KeyError)) \<or>
         (\<exists>p. cf g \<noteq> None \<and> finish cf s g vc vo = Some (Inr (make_result p vc vo)) \<and>
              is_route G s g p)"
proof (cases "cf g")
  case None
  then show ?thesis by (simp add: finish_def reconstruct_path_missing)
next
  case (Some a)
  then have "g \<in> dom cf" by auto
  with r obtain xs where xs: "chain cf g xs" "last xs = s" unfolding rooted_def by blast
  have "finish cf s g vc vo = Some (Inr (make_result (rev xs) vc vo))"
    using reconstruct_path_chain[OF xs(1), of s] xs(2) by (simp add: finish_def)
  moreover have "is_route G s g (rev xs)" using chain_route[OF xs(1) e] xs(2) by simp
  ultimately show ?thesis using Some by blast
qed

lemma make_result_route:
  "is_route G s g p \<Longrightarrow> distance (make_result p vc vo) = int (length p) - 1"
  by (cases p) (auto simp: make_result_def is_route_def)

lemma bfs_cases:
  assumes fin: "finite (dom G)"
  shows "\<exists>fr cf vc vo. bfs_loop G g [s] [s \<mapsto> None] 0 [] = Some (fr, cf, vc, vo) \<and>
           bfs G s g = finish cf s g vc vo \<and> rooted cf s \<and> cf_edges G cf \<and>
           vc = int (length vo) \<and> distinct (vo @ fr) \<and> set (vo @ fr) = dom cf"
proof -
  from bfs_loop_terminates[OF fin] obtain r where
    "bfs_loop G g [s] [s \<mapsto> None] 0 [] = Some r" by blast
  then obtain fr cf vc vo where run: "bfs_loop G g [s] [s \<mapsto> None] 0 [] = Some (fr, cf, vc, vo)"
    by (cases r) auto
  then have "bfs G s g = finish cf s g vc vo" by (simp add: bfs_def)
  with run bfs_loop_facts[OF run] bfs_loop_rooted[OF run] show ?thesis by blast
qed

lemma dfs_cases:
  assumes fin: "finite (dom G)"
  shows "\<exists>st cf vc vo. dfs_loop G g [s] [s \<mapsto> None] 0 [] = Some (st, cf, vc, vo) \<and>
           dfs G s g = finish cf s g vc vo \<and> rooted cf s \<and> cf_edges G cf \<and>
           vc = int (length vo) \<and> distinct (vo @ st) \<and> set (vo @ st) = dom cf"
proof -
  from dfs_loop_terminates[OF fin] obtain r where
    "dfs_loop G g [s] [s \<mapsto> None] 0 [] = Some r" by blast
  then obtain st cf vc vo where run: "dfs_loop G g [s] [s \<mapsto> None] 0 [] = Some (st, cf, vc, vo)"
    by (cases r) auto
  then have "dfs G s g = finish cf s g vc vo" by (simp add: dfs_def)
  with run dfs_loop_facts[OF run] dfs_loop_rooted[OF run] show ?thesis by blast
qed

lemma finish_sound:
  assumes r: "rooted cf s" and e: "cf_edges G cf" and c: "vc = int (length vo)"
  shows "finish cf s g vc vo = Some (Inl KeyError) \<or>
         (\<exists>r. finish cf s g vc vo = Some (Inr r) \<and> sound_result G s g r \<and>
              visited_order r = Some vo)"
  using finish_rooted[OF r e, of g vc vo] c
  by (auto simp: sound_result_def make_result_route) (auto simp: make_result_def)

lemma astar_cases:
  assumes fin: "finite (dom G)"
  shows "\<exists>r vo. astar G pos s g = Some (Inr r) \<and>
           visited_order r = Some vo \<and> visited_count r = int (length vo) \<and>
           (path r = [] \<and> distance r = 0 \<or>
            is_route G s g (path r) \<and> distance r = int (length (path r)) - 1)"
proof -
  define I where "I = (\<lambda>hp cf gs (vc::int) (vo :: 'a list).
     astar_inv G s hp cf gs \<and> vc = int (length vo))"
  have init: "I (heappush [] (0, s)) [s \<mapsto> None] [s \<mapsto> 0] 0 []"
    by (simp add: I_def astar_inv_init)
  from astar_loop_terminates[OF fin astar_inv_init, where pos=pos and goal=g and vc=0 and vo="[]"]
  obtain out where run: "astar_loop G pos s g (heappush [] (0, s)) [s \<mapsto> None] [s \<mapsto> 0] 0 [] = Some out"
    by blast
  have step: "I hp' cf' gs' (vc + 1) (vo @ [c])"
    if inv: "I hp cf gs vc vo" and ne: "hp \<noteq> []" and pop: "heappop hp = ((f, c), popped)"
      and "c \<noteq> g"
      and f: "fold (astar_relax pos g c) (neighbors G c) (Inr (popped, cf, gs)) = Inr (hp', cf', gs')"
    for hp cf gs vc vo f c popped hp' cf' gs'
  proof -
    note hf = heappop_facts[OF ne pop]
    from inv have ai: "astar_inv G s hp cf gs" by (simp add: I_def)
    have invp: "astar_inv G s popped cf gs" unfolding hf(2) by (rule astar_inv_pop[OF ai])
    from ai hf(1) have "snd (f, c) \<in> dom gs" unfolding astar_inv_def by blast
    then obtain gc where gc: "gs c = Some gc" by auto
    from astar_inv_fold[OF invp gc, where pos=pos and goal=g] f have "astar_inv G s hp' cf' gs'" by auto
    with inv show ?thesis by (simp add: I_def)
  qed
  have "(\<exists>cf gs vc vo. I [] cf gs vc vo \<and>
            out = Inr \<lparr>path = [], distance = 0, visited_count = vc, visited_order = Some vo\<rparr>) \<or>
         (\<exists>hp cf gs vc vo f popped. I hp cf gs vc vo \<and> hp \<noteq> [] \<and>
            heappop hp = ((f, g), popped) \<and>
            finish cf s g (vc + 1) (vo @ [g]) = Some out) \<or>
         (\<exists>hp cf gs vc vo f current popped e. I hp cf gs vc vo \<and> hp \<noteq> [] \<and>
            heappop hp = ((f, current), popped) \<and> current \<noteq> g \<and>
            fold (astar_relax pos g current) (neighbors G current) (Inr (popped, cf, gs)) = Inl e \<and>
            out = Inl e)"
    by (rule astar_loop_rule[where I=I, OF run init]) (rule step; assumption)
  then consider
    (empty) cf gs vc vo where "I [] cf gs vc vo"
      "out = Inr \<lparr>path = [], distance = 0, visited_count = vc, visited_order = Some vo\<rparr>"
  | (found) hp cf gs vc vo f popped where "I hp cf gs vc vo" "hp \<noteq> []"
      "heappop hp = ((f, g), popped)" "finish cf s g (vc + 1) (vo @ [g]) = Some out"
  | (raised) hp cf gs vc vo f current popped e where "I hp cf gs vc vo" "hp \<noteq> []"
      "heappop hp = ((f, current), popped)" "current \<noteq> g"
      "fold (astar_relax pos g current) (neighbors G current) (Inr (popped, cf, gs)) = Inl e"
    by blast
  then show ?thesis
  proof cases
    case empty
    with run show ?thesis by (simp add: astar_def I_def)
  next
    case found
    note hf = heappop_facts[OF found(2,3)]
    from found(1) have ai: "astar_inv G s hp cf gs" and c: "vc = int (length vo)"
      by (simp_all add: I_def)
    from astar_inv_finish[OF ai hf(1), where vc="vc + 1" and vo="vo @ [g]"] found(4)
    obtain p where p: "out = Inr (make_result p (vc + 1) (vo @ [g]))" "is_route G s g p"
      by auto
    have "distance (make_result p (vc + 1) (vo @ [g])) = int (length p) - 1"
      using p(2) by (rule make_result_route)
    with p c run show ?thesis by (simp add: astar_def make_result_def)
  next
    case raised
    note hf = heappop_facts[OF raised(2,3)]
    from raised(1) have ai: "astar_inv G s hp cf gs" by (simp add: I_def)
    have invp: "astar_inv G s popped cf gs" unfolding hf(2) by (rule astar_inv_pop[OF ai])
    from ai hf(1) have "snd (f, current) \<in> dom gs" unfolding astar_inv_def by blast
    then obtain gc where gc: "gs current = Some gc" by auto
    from astar_inv_fold[OF invp gc, where pos=pos and goal=g] raised(5) show ?thesis by auto
  qed
qed

lemma bfs_sound:
  assumes fin: "finite (dom G)"
  shows "bfs G s g = Some (Inl KeyError) \<or>
         (\<exists>r vo. bfs G s g = Some (Inr r) \<and> sound_result G s g r \<and>
             visited_order r = Some vo \<and> distinct vo)"
proof -
  from bfs_cases[OF fin, where g=g and s=s] obtain fr cf vc vo where
    b: "bfs G s g = finish cf s g vc vo" "rooted cf s" "cf_edges G cf" "vc = int (length vo)"
       "distinct (vo @ fr)" by blast
  from finish_sound[OF b(2,3,4), where g=g] b(1,5) show ?thesis by auto
qed

lemma dfs_sound:
  assumes fin: "finite (dom G)"
  shows "dfs G s g = Some (Inl KeyError) \<or>
         (\<exists>r vo. dfs G s g = Some (Inr r) \<and> sound_result G s g r \<and>
             visited_order r = Some vo \<and> distinct vo)"
proof -
  from dfs_cases[OF fin, where g=g and s=s] obtain st cf vc vo where
    b: "dfs G s g = finish cf s g vc vo" "rooted cf s" "cf_edges G cf" "vc = int (length vo)"
       "distinct (vo @ st)" by blast
  from finish_sound[OF b(2,3,4), where g=g] b(1,5) show ?thesis by auto
qed

lemma search_returns:
  assumes fin: "finite (dom G)"
  shows "\<exists>out. search kind G pos s g = Some out"
  using bfs_sound[OF fin, where s=s and g=g] dfs_sound[OF fin, where s=s and g=g] astar_cases[OF fin, where pos=pos and s=s and g=g]
  by (cases kind) (auto simp: search_def)

lemma search_result:
  assumes fin: "finite (dom G)" and r: "search kind G pos s g = Some (Inr r)"
  shows "(\<exists>vo. visited_order r = Some vo \<and> visited_count r = int (length vo)) \<and>
         (path r = [] \<and> distance r = 0 \<or>
          is_route G s g (path r) \<and> distance r = int (length (path r)) - 1)"
proof (cases kind)
  case BFS
  with r bfs_sound[OF fin, where s=s and g=g] show ?thesis by (auto simp: search_def sound_result_def)
next
  case DFS
  with r dfs_sound[OF fin, where s=s and g=g] show ?thesis by (auto simp: search_def sound_result_def)
next
  case ASTAR
  with r astar_cases[OF fin, where pos=pos and s=s and g=g] show ?thesis by (auto simp: search_def)
qed

subsection \<open>The claims about all three searches\<close>

lemma bfs_line:
  "bfs line_graph 0 2 =
     Some (Inr \<lparr>path = [0, 1, 2], distance = 2, visited_count = 3,
                visited_order = Some [0, 1, 2]\<rparr>)"
  by (simp add: search_unfold line_graph_def)

lemma dfs_line:
  "dfs line_graph 0 2 =
     Some (Inr \<lparr>path = [0, 1, 2], distance = 2, visited_count = 3,
                visited_order = Some [0, 1, 2]\<rparr>)"
  by (simp add: search_unfold line_graph_def)

lemma astar_line:
  "astar line_graph Map.empty 0 2 =
     Some (Inr \<lparr>path = [0, 1, 2], distance = 2, visited_count = 3,
                visited_order = Some [0, 1, 2]\<rparr>)"
  by (simp add: astar_unfold line_graph_def)

lemma finite_line: "finite (dom line_graph)"
  by (simp add: line_graph_def)

lemma route_line: "is_route line_graph 0 2 [0, 1, 2]"
  by (simp add: is_route_def edge_def neighbors_def line_graph_def)

text \<open>
  Claim C1 (path validity). On every finite adjacency mapping, for every start and goal
  (keys of the mapping or not) and each of \<^verbatim>\<open>bfs\<close>, \<^verbatim>\<open>dfs\<close> and \<^verbatim>\<open>astar\<close>, the call ends
  (by returning or by raising), and whenever it returns a result with a non-empty path,
  the path starts at the start, ends at the goal, and each consecutive pair is an edge:
  the second node is listed among the neighbors of the first.
\<close>

theorem path_validity:
  assumes "finite (dom G)"
  shows "(\<exists>out. search kind G pos s g = Some out) \<and>
         (\<forall>r. search kind G pos s g = Some (Inr r) \<longrightarrow> path r \<noteq> [] \<longrightarrow>
              hd (path r) = s \<and> last (path r) = g \<and> successively (edge G) (path r))"
  using search_returns[OF assms, of kind pos s g] search_result[OF assms, of kind pos s g]
  by (auto simp: is_route_def)

theorem path_validity_witness:
  "finite (dom line_graph) \<and>
   search ASTAR line_graph Map.empty 0 2 =
     Some (Inr \<lparr>path = [0, 1, 2], distance = 2, visited_count = 3,
                visited_order = Some [0, 1, 2]\<rparr>) \<and>
   hd [0, 1, 2 :: nat] = 0 \<and> last [0, 1, 2 :: nat] = 2 \<and>
   successively (edge line_graph) [0, 1, 2]"
  using path_validity[OF finite_line, of ASTAR Map.empty 0 2] finite_line
  by (simp add: search_def astar_line)

text \<open>
  Claim C6 (visitation count consistency). On every finite adjacency mapping each of the
  three searches ends, and every result it returns carries a visitation order whose
  length is the visited count.
\<close>

theorem visited_count_consistent:
  assumes "finite (dom G)"
  shows "(\<exists>out. search kind G pos s g = Some out) \<and>
         (\<forall>r. search kind G pos s g = Some (Inr r) \<longrightarrow>
              (\<exists>vo. visited_order r = Some vo \<and> visited_count r = int (length vo)))"
  using search_returns[OF assms, of kind pos s g] search_result[OF assms, of kind pos s g]
  by auto

theorem visited_count_consistent_witness:
  "finite (dom detour_graph) \<and>
   (\<exists>r vo. search ASTAR detour_graph detour_positions 0 6 = Some (Inr r) \<and>
      visited_order r = Some vo \<and> visited_count r = 9 \<and> length vo = 9)"
proof -
  have fin: "finite (dom detour_graph)" by (simp add: detour_graph_def)
  from visited_count_consistent[OF fin, of ASTAR detour_positions 0 6] fin
  show ?thesis by (simp add: search_def astar_detour)
qed

text \<open>
  Claim C9 (single discovery in BFS and DFS). On every finite adjacency mapping the loops
  of \<^verbatim>\<open>bfs\<close> and \<^verbatim>\<open>dfs\<close> end, and at their end the nodes popped so far followed by the
  nodes still on the frontier form a duplicate-free list whose elements are exactly the
  keys of \<^verbatim>\<open>came_from\<close>: a node enters the frontier only together with its first
  \<^verbatim>\<open>came_from\<close> entry, hence at most once. Consequently the visitation order of every
  returned result is duplicate-free.
\<close>

theorem single_discovery:
  assumes "finite (dom G)"
  shows "(\<exists>fr cf vc vo. bfs_loop G g [s] [s \<mapsto> None] 0 [] = Some (fr, cf, vc, vo) \<and>
            distinct (vo @ fr) \<and> set (vo @ fr) = dom cf) \<and>
         (\<exists>st cf vc vo. dfs_loop G g [s] [s \<mapsto> None] 0 [] = Some (st, cf, vc, vo) \<and>
            distinct (vo @ st) \<and> set (vo @ st) = dom cf) \<and>
         (\<forall>r. bfs G s g = Some (Inr r) \<or> dfs G s g = Some (Inr r) \<longrightarrow>
            (\<exists>vo. visited_order r = Some vo \<and> distinct vo))"
proof (intro conjI allI impI)
  show "\<exists>fr cf vc vo. bfs_loop G g [s] [s \<mapsto> None] 0 [] = Some (fr, cf, vc, vo) \<and>
            distinct (vo @ fr) \<and> set (vo @ fr) = dom cf"
    using bfs_cases[OF assms, where g=g and s=s] by blast
  show "\<exists>st cf vc vo. dfs_loop G g [s] [s \<mapsto> None] 0 [] = Some (st, cf, vc, vo) \<and>
            distinct (vo @ st) \<and> set (vo @ st) = dom cf"
    using dfs_cases[OF assms, where g=g and s=s] by blast
next
  fix r assume "bfs G s g = Some (Inr r) \<or> dfs G s g = Some (Inr r)"
  then show "\<exists>vo. visited_order r = Some vo \<and> distinct vo"
    using bfs_sound[OF assms, where g=g and s=s] dfs_sound[OF assms, where g=g and s=s]
    by auto
qed

theorem single_discovery_witness:
  "finite (dom line_graph) \<and>
   bfs_loop line_graph 2 [0] [0 \<mapsto> None] 0 [] =
     Some ([], [0 \<mapsto> None, 1 \<mapsto> Some 0, 2 \<mapsto> Some 1], 3, [0, 1, 2]) \<and>
   dfs_loop line_graph 2 [0] [0 \<mapsto> None] 0 [] =
     Some ([], [0 \<mapsto> None, 1 \<mapsto> Some 0, 2 \<mapsto> Some 1], 3, [0, 1, 2]) \<and>
   (\<exists>r vo. bfs line_graph 0 2 = Some (Inr r) \<and> visited_order r = Some vo \<and> distinct vo)"
proof -
  have b: "bfs_loop line_graph 2 [0] [0 \<mapsto> None] 0 [] =
     Some ([], [0 \<mapsto> None, 1 \<mapsto> Some 0, 2 \<mapsto> Some 1], 3, [0, 1, 2])"
    by (simp add: bfs_loop.simps bfs_visit_def neighbors_def line_graph_def)
  have d: "dfs_loop line_graph 2 [0] [0 \<mapsto> None] 0 [] =
     Some ([], [0 \<mapsto> None, 1 \<mapsto> Some 0, 2 \<mapsto> Some 1], 3, [0, 1, 2])"
    by (simp add: dfs_loop.simps bfs_visit_def neighbors_def line_graph_def Let_def)
  from single_discovery[OF finite_line, of 2 0] finite_line b d
  show ?thesis by (simp add: bfs_line)
qed

text \<open>
  Claim C3 (disconnected goal), at the specification's scenario of two disjoint triangles:
  \<^verbatim>\<open>bfs\<close> and \<^verbatim>\<open>dfs\<close> from \<open>A\<close> to \<open>D\<close> do not return an empty result; the loop ends with
  \<open>D\<close> missing from \<^verbatim>\<open>came_from\<close>, and \<^verbatim>\<open>reconstruct_path\<close> raises \<^verbatim>\<open>KeyError\<close> at
  \<^verbatim>\<open>came_from[current]\<close>.
\<close>

theorem disconnected_goal_raises:
  "bfs two_triangles ''A'' ''D'' = Some (Inl KeyError) \<and>
   dfs two_triangles ''A'' ''D'' = Some (Inl KeyError)"
  by (simp add: search_unfold two_triangles_def)

text \<open>The same holds on every finite graph whose goal has no route from the start.\<close>

lemma unreachable_goal_raises:
  assumes fin: "finite (dom G)" and un: "\<not> (\<exists>p. is_route G s g p)"
  shows "bfs G s g = Some (Inl KeyError) \<and> dfs G s g = Some (Inl KeyError)"
  using bfs_sound[OF fin, where s=s and g=g] dfs_sound[OF fin, where s=s and g=g] un
  by (auto simp: sound_result_def)

text \<open>A came-from map that sends a node to itself keeps the walk going for ever.\<close>

lemma reconstruct_walk_loops:
  assumes cyc: "cf c = Some (Some c)"
  shows "reconstruct_walk cf (Some c) acc = None"
proof (rule ccontr)
  assume "reconstruct_walk cf (Some c) acc \<noteq> None"
  then obtain out where run: "reconstruct_walk cf (Some c) acc = Some out" by auto
  define P where "P = (\<lambda>cf' (cur :: 'a option) (acc :: 'a list) (out :: error + 'a list).
     cf' = cf \<longrightarrow> cur = Some c \<longrightarrow> False)"
  have "P cf (Some c) acc out"
  proof (rule reconstruct_walk.raw_induct[OF _ run])
    fix walk :: "('a \<rightharpoonup> 'a option) \<Rightarrow> 'a option \<Rightarrow> 'a list \<Rightarrow> (error + 'a list) option"
      and cf' and cur :: "'a option" and acc and out :: "error + 'a list"
    assume IH: "\<And>cf' cur acc out. walk cf' cur acc = Some out \<Longrightarrow> P cf' cur acc out"
      and body: "(case cur of None \<Rightarrow> Some (Inr acc)
        | Some c \<Rightarrow> (case cf' c of None \<Rightarrow> Some (Inl KeyError)
                     | Some nxt \<Rightarrow> walk cf' nxt (acc @ [c]))) = Some out"
    show "P cf' cur acc out"
      unfolding P_def
    proof (intro impI)
      assume "cf' = cf" "cur = Some c"
      with body cyc have "walk cf (Some c) (acc @ [c]) = Some out" by simp
      from IH[OF this] show False unfolding P_def by simp
    qed
  qed
  then show False unfolding P_def by simp
qed

text \<open>
  Claim C4 (the fallback of path reconstruction is total), at two came-from maps: when the
  goal has no entry the function raises \<^verbatim>\<open>KeyError\<close> instead of returning the empty list,
  and on a map with a cycle it never returns.
\<close>

theorem reconstruct_path_not_total:
  "reconstruct_path [(0::nat) \<mapsto> None] 0 1 = Some (Inl KeyError) \<and>
   reconstruct_path [(1::nat) \<mapsto> Some 1] 0 1 = None"
proof
  show "reconstruct_path [(0::nat) \<mapsto> None] 0 1 = Some (Inl KeyError)"
    by (rule reconstruct_path_missing) simp
  show "reconstruct_path [(1::nat) \<mapsto> Some 1] 0 1 = None"
    by (simp add: reconstruct_path_def reconstruct_walk_loops)
qed

end
